theory Spec2Isabelle
  imports Complex_Main
begin

section \<open>Strings as the JavaScript sources use them\<close>

text \<open>
  JavaScript strings are modelled as \<open>string\<close> (a list of characters). All texts the
  sources compare (error messages, class names, the URL pattern) are ASCII; a character
  stands for one code unit below 256.
\<close>

definition toLowerCase_char :: "char \<Rightarrow> char" where
  "toLowerCase_char c =
     (let n = (of_char c :: nat) in if 65 \<le> n \<and> n \<le> 90 then char_of (n + 32) else c)"

definition toLowerCase :: "string \<Rightarrow> string" where
  "toLowerCase s = map toLowerCase_char s"

fun startsWith :: "string \<Rightarrow> string \<Rightarrow> bool" where
  "startsWith s [] = True"
| "startsWith [] (p # ps) = False"
| "startsWith (c # cs) (p # ps) = (c = p \<and> startsWith cs ps)"

text \<open>\<open>str_includes s pat\<close> is \<open>s.includes(pat)\<close>: \<open>pat\<close> occurs somewhere in \<open>s\<close>.\<close>

fun str_includes :: "string \<Rightarrow> string \<Rightarrow> bool" where
  "str_includes [] pat = (pat = [])"
| "str_includes (c # cs) pat = (startsWith (c # cs) pat \<or> str_includes cs pat)"

section \<open>Shared constants (shared/constants.js)\<close>

definition INVALID_URL :: string where
  "INVALID_URL = ''Invalid eBay URL format''"

definition NETWORK_ERROR :: string where
  "NETWORK_ERROR = ''Network connection failed''"

definition TIMEOUT_ERROR :: string where
  "TIMEOUT_ERROR = ''Request timeout - page took too long to load''"

definition RATE_LIMIT_EXCEEDED :: string where
  "RATE_LIMIT_EXCEEDED = ''Rate limit exceeded - please wait''"

definition SERVER_ERROR :: string where
  "SERVER_ERROR = ''Internal server error''"

section \<open>The API client (frontend apiClient.js)\<close>

text \<open>
  A JavaScript \<open>Error\<close> object: its message, and the two attributes that
  \<open>transformError\<close> attaches (\<open>code\<close>, \<open>originalError\<close>); an error that was
  never transformed has neither.
\<close>

datatype js_error =
  JsError (message: string) (code: "string option") (originalError: "js_error option")

record api_client =
  baseURL :: string
  timeout :: nat
  maxRetries :: nat
  retryDelay :: nat
  activeRequests :: "string \<rightharpoonup> nat"
  requestId :: nat

text \<open>The constructor. The registry \<open>activeRequests\<close> maps a URL to its pending promise.\<close>

definition new_ApiClient :: api_client where
  "new_ApiClient =
     \<lparr> baseURL = ''http://localhost:3000'', timeout = 45000, maxRetries = 2,
       retryDelay = 2000, activeRequests = Map.empty, requestId = 0 \<rparr>"

definition noRetryMessages :: "string list" where
  "noRetryMessages =
     [''Invalid eBay URL'', ''URL is required'', ''rate limit'', ''Too Many Requests'',
      ''NOT_EBAY_URL'', ''INVALID_URL_FORMAT'']"

definition shouldNotRetry :: "js_error \<Rightarrow> bool" where
  "shouldNotRetry error =
     list_ex (\<lambda>msg. str_includes (toLowerCase (message error)) (toLowerCase msg)) noRetryMessages"

text \<open>
  What \<open>makeRequest\<close> does to the outside world, in order: \<open>Delay ms\<close> is
  \<open>await this.delay(ms)\<close>, \<open>PerformRequest k\<close> is the call of \<open>performRequest\<close>
  made in loop iteration \<open>attempt = k\<close>.
\<close>

datatype effect = Delay nat | PerformRequest nat

text \<open>
  The retry loop of \<open>makeRequest\<close>. The network is the parameter \<open>perform\<close>: the
  outcome of the \<open>performRequest\<close> call of iteration \<open>k\<close> (\<open>Inl\<close> a thrown error,
  a timeout included; \<open>Inr\<close> the parsed body). The loop state is \<open>attempt\<close> and
  \<open>lastError\<close> (\<open>None\<close> is \<open>null\<close>); the result is the value returned (\<open>Inr\<close>) or
  thrown (\<open>Inl\<close>), with the effects performed.
\<close>

function makeRequest_loop ::
  "api_client \<Rightarrow> nat \<Rightarrow> (nat \<Rightarrow> js_error + 'a) \<Rightarrow> nat \<Rightarrow> js_error option
     \<Rightarrow> (js_error option + 'a) \<times> effect list" where
  "makeRequest_loop c retries perform attempt lastError =
     (if attempt \<le> retries then
        (let waits = (if attempt > 0 then [Delay (retryDelay c * attempt)] else []) in
         case perform attempt of
           Inr result \<Rightarrow> (Inr result, waits @ [PerformRequest attempt])
         | Inl error \<Rightarrow>
             if shouldNotRetry error
             then (Inl (Some error), waits @ [PerformRequest attempt])
             else (case makeRequest_loop c retries perform (attempt + 1) (Some error) of
                     (r, tr) \<Rightarrow> (r, waits @ PerformRequest attempt # tr)))
      else (Inl lastError, []))"
  by pat_completeness auto
termination
  by (relation "measure (\<lambda>(c, retries, perform, attempt, lastError). retries + 1 - attempt)") auto

declare makeRequest_loop.simps [simp del]

text \<open>
  \<open>makeRequest(method, endpoint, body, options)\<close>: \<open>options.retries\<close> replaces
  \<open>maxRetries\<close> when it is given.
\<close>

definition requestOptions_retries :: "api_client \<Rightarrow> nat option \<Rightarrow> nat" where
  "requestOptions_retries c retries_option =
     (case retries_option of Some r \<Rightarrow> r | None \<Rightarrow> maxRetries c)"

definition makeRequest ::
  "api_client \<Rightarrow> nat option \<Rightarrow> (nat \<Rightarrow> js_error + 'a) \<Rightarrow> (js_error option + 'a) \<times> effect list" where
  "makeRequest c retries_option perform =
     makeRequest_loop c (requestOptions_retries c retries_option) perform 0 None"

text \<open>
  The effects of loop iteration \<open>k\<close> when its attempt is made: the backoff delay
  \<open>retryDelay * k\<close> before every attempt but the first, then the request.
\<close>

definition attempt_effects :: "api_client \<Rightarrow> nat \<Rightarrow> effect list" where
  "attempt_effects c k = (if k > 0 then [Delay (retryDelay c * k)] else []) @ [PerformRequest k]"

text \<open>Every attempt up to \<open>retries\<close> fails with an error that \<open>shouldNotRetry\<close> lets through.\<close>

definition all_attempts_retryable :: "(nat \<Rightarrow> js_error + 'a) \<Rightarrow> nat \<Rightarrow> bool" where
  "all_attempts_retryable perform retries =
     list_all (\<lambda>k. case perform k of Inl e \<Rightarrow> \<not> shouldNotRetry e | Inr r \<Rightarrow> False)
       [0 ..< Suc retries]"

fun is_request :: "effect \<Rightarrow> bool" where
  "is_request (PerformRequest k) = True"
| "is_request (Delay d) = False"

definition transformError :: "js_error \<Rightarrow> js_error" where
  "transformError error =
     (let msg = message error in
      if str_includes msg ''timeout''
        then JsError TIMEOUT_ERROR (Some ''TIMEOUT'') (Some error)
      else if str_includes msg ''network'' \<or> str_includes msg ''fetch''
        then JsError NETWORK_ERROR (Some ''NETWORK'') (Some error)
      else if str_includes msg ''Invalid eBay URL'' \<or> str_includes msg ''NOT_EBAY_URL''
        then JsError INVALID_URL (Some ''INVALID_URL'') (Some error)
      else if str_includes msg ''rate limit'' \<or> str_includes msg ''Too Many Requests''
        then JsError RATE_LIMIT_EXCEEDED (Some ''RATE_LIMITED'') (Some error)
      else if str_includes msg ''Server is still initializing''
        then JsError ''Server is starting up. Please wait and try again.''
               (Some ''SERVER_INITIALIZING'') (Some error)
      else JsError msg (Some ''UNKNOWN_ERROR'') (Some error))"

subsection \<open>analyzeURL and the registry of pending requests\<close>

text \<open>
  Promises are named by numbers. The runtime holds the client object, for every pending
  promise made by \<open>analyzeURL\<close> the URL that its \<open>finally\<close> callback deletes from
  the registry, and the next unused promise name. Every promise made here is one call of
  \<open>makeRequest\<close>.
\<close>

record runtime =
  client :: api_client
  pending_url :: "nat \<rightharpoonup> string"
  next_promise :: nat

definition new_runtime :: runtime where
  "new_runtime = \<lparr> client = new_ApiClient, pending_url = Map.empty, next_promise = 0 \<rparr>"

text \<open>
  How an activation of \<open>analyzeURL\<close> is tied to a promise \<open>p\<close>: \<open>Joined p\<close>
  returned the registered promise (\<open>return this.activeRequests.get(url)\<close>, no
  \<open>await\<close>); \<open>Started p\<close> made \<open>p\<close>, registered it and awaits it inside the
  \<open>try\<close> block.
\<close>

datatype caller = Joined nat | Started nat

fun promise_of :: "caller \<Rightarrow> nat" where
  "promise_of (Joined p) = p"
| "promise_of (Started p) = p"

definition analyzeURL_call :: "runtime \<Rightarrow> string \<Rightarrow> runtime \<times> caller" where
  "analyzeURL_call rt u =
     (case activeRequests (client rt) u of
        Some p \<Rightarrow> (rt, Joined p)
      | None \<Rightarrow>
          (let p = next_promise rt in
           (rt\<lparr> client := (client rt)\<lparr> activeRequests := (activeRequests (client rt))(u \<mapsto> p) \<rparr>,
                pending_url := (pending_url rt)(p \<mapsto> u),
                next_promise := p + 1 \<rparr>,
            Started p)))"

text \<open>
  The promise \<open>p\<close> settles, fulfilled or rejected: its \<open>finally\<close> callback runs
  \<open>this.activeRequests.delete(url)\<close>.
\<close>

definition promise_settled :: "runtime \<Rightarrow> nat \<Rightarrow> runtime" where
  "promise_settled rt p =
     (case pending_url rt p of
        None \<Rightarrow> rt
      | Some u \<Rightarrow>
          rt\<lparr> client := (client rt)\<lparr> activeRequests := (activeRequests (client rt))(u := None) \<rparr>,
              pending_url := (pending_url rt)(p := None) \<rparr>)"

definition cancelAllRequests :: "runtime \<Rightarrow> runtime" where
  "cancelAllRequests rt = rt\<lparr> client := (client rt)\<lparr> activeRequests := Map.empty \<rparr> \<rparr>"

text \<open>
  What a caller of \<open>analyzeURL\<close> observes once the promise has settled with
  \<open>outcome\<close> (the value or the rejection of \<open>makeRequest\<close>). The caller that started
  the request awaits inside \<open>try\<close>, so a rejection goes through
  \<open>catch (error) { throw this.transformError(error) }\<close>; reading \<open>error.message\<close>
  of \<open>null\<close> there throws a TypeError instead. A caller that joined returned the promise
  without awaiting it, so it receives the outcome as it is.
\<close>

definition catch_rethrow :: "js_error option \<Rightarrow> js_error" where
  "catch_rethrow rejection =
     (case rejection of
        Some e \<Rightarrow> transformError e
      | None \<Rightarrow> JsError ''TypeError: Cannot read properties of null'' None None)"

definition analyzeURL_result :: "caller \<Rightarrow> (js_error option + 'a) \<Rightarrow> (js_error option + 'a)" where
  "analyzeURL_result h outcome =
     (case h of
        Joined p \<Rightarrow> outcome
      | Started p \<Rightarrow>
          (case outcome of
             Inr result \<Rightarrow> Inr result
           | Inl rejection \<Rightarrow> Inl (Some (catch_rethrow rejection))))"

section \<open>The analysis engine (frontend analysisEngine.js)\<close>

datatype status = Pending | Processing | Completed | Error | Skipped

text \<open>
  A row of the uploaded table with the analysis fields (\<open>_id\<close>, \<open>_status\<close>, ...). The
  three classification fields and \<open>_analysisResult\<close> start as the empty string (not
  set), \<open>_errorMessage\<close> and \<open>_processingTime\<close> as \<open>undefined\<close> (\<open>None\<close>).
  \<open>row_url\<close> is \<open>row.url || row[urlColumn]\<close>, \<open>None\<close> when that is falsy.
\<close>

record row =
  row_id :: nat
  row_url :: "string option"
  status :: status
  productFiche :: string
  energyLabelPresent :: string
  mouseoverLabel :: string
  analysisResult :: string
  errorMessage :: "string option"
  processingTime :: "nat option"

text \<open>The body of a successful response of the analysis endpoint, as the client reads it.\<close>

record analysis_result =
  res_productFiche :: string
  res_energyLabel :: string
  res_mouseoverLabel :: string
  res_processingTime :: nat

text \<open>
  The suspended activations of the engine's asynchronous functions, each at its
  \<open>await\<close>:
  \<^item> \<open>StartAwaitServer data\<close>: \<open>startAnalysis(data)\<close> at \<open>await isServerAvailable()\<close>;
  \<^item> \<open>StartAwaitWorkers ws\<close>: \<open>startAnalysis\<close> at \<open>await processWithConcurrency()\<close>,
    that is \<open>Promise.all\<close> of the workers \<open>ws\<close>;
  \<^item> \<open>AwaitPause\<close>: a worker (\<open>processNextRow\<close>) at \<open>await this.delay(100)\<close>;
  \<^item> \<open>AwaitFetch r rowId\<close>: a worker inside \<open>processRow\<close> of row \<open>r\<close> at
    \<open>await analyzeURL(url)\<close>;
  \<^item> \<open>AwaitRow\<close>: a worker at \<open>await this.processRow(row)\<close>, \<open>processRow\<close> having
    returned;
  \<^item> \<open>AwaitPace\<close>: a worker at \<open>await this.delay(500)\<close>;
  \<^item> \<open>Finished\<close>: the activation has returned.
  Rows are objects shared by reference; a row is named by its position in
  \<open>uploadedData\<close>, from which every batch is taken.
\<close>

datatype task =
    StartAwaitServer "nat list"
  | StartAwaitWorkers "nat list"
  | AwaitPause
  | AwaitFetch nat nat
  | AwaitRow
  | AwaitPace
  | Finished

record engine =
  isProcessing :: bool
  isPaused :: bool
  isStopped :: bool
  currentIndex :: nat
  totalRows :: nat
  processedRows :: nat
  successfulRows :: nat
  errorRows :: nat
  processingQueue :: "nat list"
  maxConcurrentRequests :: nat
  activeRowIds :: "nat set"
  uploadedData :: "row list"
  tasks :: "task list"

text \<open>
  The constructor, on an application holding \<open>data\<close>. \<open>activeRowIds\<close> is the engine's
  own \<open>activeRequests\<close> set. Timestamps, the progress timer and all calls into the table
  and status display are left out: they do not write any of these fields.
\<close>

definition new_AnalysisEngine :: "row list \<Rightarrow> engine" where
  "new_AnalysisEngine data =
     \<lparr> isProcessing = False, isPaused = False, isStopped = False, currentIndex = 0,
       totalRows = 0, processedRows = 0, successfulRows = 0, errorRows = 0,
       processingQueue = [], maxConcurrentRequests = 3, activeRowIds = {},
       uploadedData = data, tasks = [] \<rparr>"

text \<open>A row as \<open>onDataProcessed\<close> leaves it after a file is loaded.\<close>

definition fresh_row :: "nat \<Rightarrow> string option \<Rightarrow> row" where
  "fresh_row i u =
     \<lparr> row_id = i, row_url = u, status = Pending, productFiche = [], energyLabelPresent = [],
       mouseoverLabel = [], analysisResult = [], errorMessage = None, processingTime = None \<rparr>"

definition set_task :: "engine \<Rightarrow> nat \<Rightarrow> task \<Rightarrow> engine" where
  "set_task s i t = s\<lparr> tasks := (tasks s)[i := t] \<rparr>"

definition update_row :: "engine \<Rightarrow> nat \<Rightarrow> (row \<Rightarrow> row) \<Rightarrow> engine" where
  "update_row s r f = s\<lparr> uploadedData := (uploadedData s)[r := f (uploadedData s ! r)] \<rparr>"

subsection \<open>processRow\<close>

text \<open>The \<open>try\<close> block after \<open>await analyzeURL(url)\<close> has returned \<open>result\<close>.\<close>

definition processRow_then :: "engine \<Rightarrow> nat \<Rightarrow> analysis_result \<Rightarrow> engine" where
  "processRow_then s r res =
     (update_row s r (\<lambda>row. row\<lparr>
          productFiche := res_productFiche res,
          energyLabelPresent := res_energyLabel res,
          mouseoverLabel := res_mouseoverLabel res,
          analysisResult := ''F:'' @ res_productFiche res @ '' L:'' @ res_energyLabel res
                              @ '' M:'' @ res_mouseoverLabel res,
          status := Completed,
          processingTime := Some (res_processingTime res) \<rparr>))
       \<lparr> successfulRows := successfulRows s + 1 \<rparr>"

text \<open>The \<open>catch\<close> block.\<close>

definition processRow_catch :: "engine \<Rightarrow> nat \<Rightarrow> js_error \<Rightarrow> engine" where
  "processRow_catch s r error =
     (update_row s r (\<lambda>row. row\<lparr>
          status := Error,
          errorMessage := Some (message error),
          analysisResult := ''Error: '' @ message error \<rparr>))
       \<lparr> errorRows := errorRows s + 1 \<rparr>"

text \<open>The \<open>finally\<close> block.\<close>

definition processRow_finally :: "engine \<Rightarrow> nat \<Rightarrow> engine" where
  "processRow_finally s rowId =
     s\<lparr> activeRowIds := activeRowIds s - {rowId}, processedRows := processedRows s + 1 \<rparr>"

text \<open>
  \<open>processRow(row)\<close> from its call to its first suspension: the guard, the mark
  \<open>Processing\<close>, the URL check (a row without URL throws inside \<open>try\<close> and is finished at
  once), and the call of \<open>analyzeURL\<close>. The result is the new state and where the
  calling worker is suspended.
\<close>

definition processRow_begin :: "engine \<Rightarrow> nat \<Rightarrow> engine \<times> task" where
  "processRow_begin s r =
     (let row = uploadedData s ! r in
      if status row = Processing \<or> status row = Completed then (s, AwaitRow)
      else
        (let rowId = (if row_id row \<noteq> 0 then row_id row else currentIndex s);
             s1 = update_row s r (\<lambda>row. row\<lparr> status := Processing \<rparr>)
         in case row_url row of
              None \<Rightarrow>
                (processRow_finally
                   (processRow_catch s1 r (JsError ''No URL found in row'' None None)) rowId,
                 AwaitRow)
            | Some u \<Rightarrow> (s1\<lparr> activeRowIds := insert rowId (activeRowIds s1) \<rparr>, AwaitFetch r rowId)))"

text \<open>\<open>processRow\<close> resumed when \<open>analyzeURL\<close> has settled with \<open>outcome\<close>.\<close>

definition processRow_resume :: "engine \<Rightarrow> nat \<Rightarrow> nat \<Rightarrow> js_error + analysis_result \<Rightarrow> engine" where
  "processRow_resume s r rowId outcome =
     processRow_finally
       (case outcome of
          Inr res \<Rightarrow> processRow_then s r res
        | Inl error \<Rightarrow> processRow_catch s r error)
       rowId"

subsection \<open>processNextRow (a worker)\<close>

text \<open>
  The worker \<open>i\<close> from each point of its loop to its next suspension.
  \<open>worker_dispatch\<close> starts at \<open>if (this.isStopped) break\<close> after the pause loop;
  \<open>shift()\<close> of an empty queue gives \<open>undefined\<close> and the worker leaves the loop.
\<close>

definition worker_dispatch :: "engine \<Rightarrow> nat \<Rightarrow> engine" where
  "worker_dispatch s i =
     (if isStopped s then set_task s i Finished
      else case processingQueue s of
             [] \<Rightarrow> set_task s i Finished
           | r # rest \<Rightarrow>
               (case processRow_begin (s\<lparr> processingQueue := rest \<rparr>) r of
                  (s', t) \<Rightarrow> set_task s' i t))"

definition worker_pause_loop :: "engine \<Rightarrow> nat \<Rightarrow> engine" where
  "worker_pause_loop s i =
     (if isPaused s \<and> \<not> isStopped s then set_task s i AwaitPause else worker_dispatch s i)"

definition worker_loop_head :: "engine \<Rightarrow> nat \<Rightarrow> engine" where
  "worker_loop_head s i =
     (if processingQueue s \<noteq> [] \<and> \<not> isStopped s then worker_pause_loop s i
      else set_task s i Finished)"

definition worker_after_row :: "engine \<Rightarrow> nat \<Rightarrow> engine" where
  "worker_after_row s i =
     (if processingQueue s \<noteq> [] then set_task s i AwaitPace else worker_loop_head s i)"

subsection \<open>startAnalysis, processWithConcurrency and the controls\<close>

text \<open>
  The \<open>for\<close> loop of \<open>processWithConcurrency\<close>: each call of \<open>processNextRow()\<close>
  runs at once up to its first suspension, so the queue it tests has already lost the rows
  taken by the workers started before. \<open>m\<close> is \<open>this.maxConcurrentRequests\<close>, which
  nothing assigns after the constructor. The result lists the workers started.
\<close>

function launch :: "nat \<Rightarrow> engine \<Rightarrow> nat \<Rightarrow> nat list \<Rightarrow> engine \<times> nat list" where
  "launch m s i ws =
     (if i < min m (length (processingQueue s)) then
        (let w = length (tasks s) in
         launch m (worker_loop_head (s\<lparr> tasks := tasks s @ [Finished] \<rparr>) w) (i + 1) (ws @ [w]))
      else (s, ws))"
  by pat_completeness auto
termination
  by (relation "measure (\<lambda>(m, s, i, ws). m - i)") auto

declare launch.simps [simp del]

text \<open>
  \<open>startAnalysis\<close> up to \<open>await isServerAvailable()\<close>, and from there to
  \<open>await processWithConcurrency()\<close>. Its \<open>catch\<close> block is never entered:
  \<open>processRow\<close> catches what \<open>analyzeURL\<close> throws, so with the calls into the table
  and the status display left out no worker's promise rejects.
\<close>

definition startAnalysis_call :: "engine \<Rightarrow> nat list \<Rightarrow> engine" where
  "startAnalysis_call s data =
     (if isProcessing s then s else s\<lparr> tasks := tasks s @ [StartAwaitServer data] \<rparr>)"

definition startAnalysis_resume :: "engine \<Rightarrow> nat \<Rightarrow> nat list \<Rightarrow> bool \<Rightarrow> engine" where
  "startAnalysis_resume s i data serverAvailable =
     (if \<not> serverAvailable then set_task s i Finished
      else
        (let s1 = s\<lparr> isProcessing := True, isPaused := False, isStopped := False,
                     currentIndex := 0, processedRows := 0, successfulRows := 0,
                     errorRows := 0, totalRows := length data, processingQueue := data,
                     activeRowIds := {} \<rparr>
         in case launch (maxConcurrentRequests s1) s1 0 [] of
              (s2, ws) \<Rightarrow> set_task s2 i (StartAwaitWorkers ws)))"

definition completeAnalysis :: "engine \<Rightarrow> engine" where
  "completeAnalysis s = s\<lparr> isProcessing := False, isPaused := False \<rparr>"

definition pauseAnalysis :: "engine \<Rightarrow> engine" where
  "pauseAnalysis s = (if \<not> isProcessing s then s else s\<lparr> isPaused := True \<rparr>)"

definition resumeAnalysis :: "engine \<Rightarrow> engine" where
  "resumeAnalysis s = (if \<not> isProcessing s \<or> \<not> isPaused s then s else s\<lparr> isPaused := False \<rparr>)"

text \<open>
  \<open>stopAnalysis\<close>. The call \<open>apiClient.cancelAllRequests()\<close> empties the client's
  registry and touches nothing of the engine; no request is aborted.
\<close>

definition stopAnalysis :: "engine \<Rightarrow> engine" where
  "stopAnalysis s =
     (if \<not> isProcessing s then s
      else s\<lparr> isStopped := True, isProcessing := False, isPaused := False,
              activeRowIds := {}, processingQueue := [],
              uploadedData :=
                map (\<lambda>row. if status row = Processing then row\<lparr> status := Pending \<rparr> else row)
                  (uploadedData s) \<rparr>)"

definition analyzeAll :: "engine \<Rightarrow> engine" where
  "analyzeAll s =
     (if uploadedData s = [] then s
      else startAnalysis_call s [0 ..< length (uploadedData s)])"

definition analyzeSelected :: "engine \<Rightarrow> nat set \<Rightarrow> engine" where
  "analyzeSelected s selectedRows =
     (if selectedRows = {} then s
      else startAnalysis_call s
             (filter (\<lambda>i. (let r = uploadedData s ! i in
                            if row_id r \<noteq> 0 then row_id r else i) \<in> selectedRows)
                [0 ..< length (uploadedData s)]))"

subsection \<open>The event loop\<close>

text \<open>
  One step of the engine is one run-to-completion turn of the JavaScript event loop:
  a click, or the resumption of one suspended activation. \<open>TimerFired i\<close> resumes a
  worker waiting for a delay or for the returned \<open>processRow\<close>; \<open>FetchSettled i o\<close>
  resumes a worker's \<open>processRow\<close> with the outcome of \<open>analyzeURL\<close>;
  \<open>WorkersDone i\<close> resumes \<open>startAnalysis\<close> when all its workers have returned. An
  event that names no activation waiting for it changes nothing.
\<close>

datatype event =
    ClickAnalyzeAll
  | ClickAnalyzeSelected "nat set"
  | ClickPause
  | ClickResume
  | ClickStop
  | ServerAnswered nat bool
  | TimerFired nat
  | FetchSettled nat "js_error + analysis_result"
  | WorkersDone nat

definition task_at :: "engine \<Rightarrow> nat \<Rightarrow> task" where
  "task_at s i = (if i < length (tasks s) then tasks s ! i else Finished)"

fun step :: "engine \<Rightarrow> event \<Rightarrow> engine" where
  "step s ClickAnalyzeAll = analyzeAll s"
| "step s (ClickAnalyzeSelected selectedRows) = analyzeSelected s selectedRows"
| "step s ClickPause = pauseAnalysis s"
| "step s ClickResume = resumeAnalysis s"
| "step s ClickStop = stopAnalysis s"
| "step s (ServerAnswered i serverAvailable) =
     (case task_at s i of
        StartAwaitServer data \<Rightarrow> startAnalysis_resume s i data serverAvailable
      | _ \<Rightarrow> s)"
| "step s (TimerFired i) =
     (case task_at s i of
        AwaitPause \<Rightarrow> worker_pause_loop s i
      | AwaitRow \<Rightarrow> worker_after_row s i
      | AwaitPace \<Rightarrow> worker_loop_head s i
      | _ \<Rightarrow> s)"
| "step s (FetchSettled i outcome) =
     (case task_at s i of
        AwaitFetch r rowId \<Rightarrow> set_task (processRow_resume s r rowId outcome) i AwaitRow
      | _ \<Rightarrow> s)"
| "step s (WorkersDone i) =
     (case task_at s i of
        StartAwaitWorkers ws \<Rightarrow>
          (if list_all (\<lambda>w. task_at s w = Finished) ws
           then set_task (completeAnalysis s) i Finished else s)
      | _ \<Rightarrow> s)"

definition run :: "engine \<Rightarrow> event list \<Rightarrow> engine" where
  "run s evs = foldl step s evs"

definition count_status :: "status \<Rightarrow> engine \<Rightarrow> nat" where
  "count_status st s = length (filter (\<lambda>row. status row = st) (uploadedData s))"

section \<open>The DOM analyzer (backend domAnalyzer.js)\<close>

text \<open>
  A parsed document is a tree of elements and text nodes; the document node itself is an
  element without classes whose children are the top-level nodes. Only what
  \<open>checkEnergielabel\<close> reads is kept: tag names, class lists, text.
\<close>

datatype node = Element string "string list" "node list" | Text string

text \<open>The element descendants of a node in document order, the node itself excluded.\<close>

fun descendants :: "node \<Rightarrow> node list" where
  "descendants (Text t) = []"
| "descendants (Element tag cls kids) =
     concat (map (\<lambda>k. (case k of Text t \<Rightarrow> [] | Element tag' cls' kids' \<Rightarrow> [k]) @ descendants k) kids)"

text \<open>A compound class selector such as \<open>.vim.x-eek\<close>: every class is in the class list.\<close>

fun matches :: "string list \<Rightarrow> node \<Rightarrow> bool" where
  "matches sel (Text t) = False"
| "matches sel (Element tag cls kids) = list_all (\<lambda>c. c \<in> set cls) sel"

definition querySelectorAll :: "string list \<Rightarrow> node \<Rightarrow> node list" where
  "querySelectorAll sel n = filter (matches sel) (descendants n)"

definition querySelector :: "string list \<Rightarrow> node \<Rightarrow> node option" where
  "querySelector sel n = (case querySelectorAll sel n of [] \<Rightarrow> None | x # xs \<Rightarrow> Some x)"

fun textContent :: "node \<Rightarrow> string" where
  "textContent (Text t) = t"
| "textContent (Element tag cls kids) = concat (map textContent kids)"

text \<open>
  White space as \<open>\s\<close> and \<open>trim()\<close> read it, among the code units below 256: tab, line
  feed, vertical tab, form feed, carriage return, space, no-break space.
\<close>

definition is_space :: "char \<Rightarrow> bool" where
  "is_space c = ((of_char c :: nat) \<in> {9, 10, 11, 12, 13, 32, 160})"

text \<open>
  The test \<open>/EEK\s*[A-G][+]*/i.test(text)\<close>. The pattern matches at a position when the
  three letters are there in either case, and the first character after the white space
  that follows them is a letter from A to G in either case; the trailing \<open>[+]*\<close> matches
  the empty string. The test succeeds when the pattern matches at some position.
\<close>

definition eek_letter :: "char \<Rightarrow> bool" where
  "eek_letter c = (let n = (of_char (toLowerCase_char c) :: nat) in 97 \<le> n \<and> n \<le> 103)"

definition eek_matches_here :: "string \<Rightarrow> bool" where
  "eek_matches_here s =
     (toLowerCase (take 3 s) = ''eek'' \<and>
      (case dropWhile is_space (drop 3 s) of [] \<Rightarrow> False | c # cs \<Rightarrow> eek_letter c))"

fun eek_regex_test :: "string \<Rightarrow> bool" where
  "eek_regex_test [] = False"
| "eek_regex_test (c # cs) = (eek_matches_here (c # cs) \<or> eek_regex_test cs)"

text \<open>
  \<open>checkEnergielabel(dom)\<close> on the document \<open>doc\<close>. No step of it can throw on a parsed document, so the
  \<open>catch\<close> branch is never taken.
\<close>

definition checkEnergielabel :: "node \<Rightarrow> bool" where
  "checkEnergielabel doc =
     (case querySelector [''x-regulatory-wrapper''] doc of
        None \<Rightarrow> False
      | Some regulatoryWrapper \<Rightarrow>
     (case querySelector [''vim'', ''x-eek''] regulatoryWrapper of
        None \<Rightarrow> False
      | Some vimEekContainer \<Rightarrow>
     (case querySelector [''x-eek__icon-overlay-wrapper''] vimEekContainer of
        None \<Rightarrow> False
      | Some iconOverlayWrapper \<Rightarrow>
     (case querySelector [''ux-eek-icon''] iconOverlayWrapper of
        None \<Rightarrow> False
      | Some uxEekIcon \<Rightarrow>
     (case querySelector [''eek''] uxEekIcon of
        None \<Rightarrow> False
      | Some eekElement \<Rightarrow>
          if (case querySelector [''fake-link''] vimEekContainer of
                None \<Rightarrow> False
              | Some fakeLink \<Rightarrow> eek_regex_test (textContent fakeLink))
          then False
          else (case querySelector [''eek__rating''] eekElement of
                  None \<Rightarrow> False
                | Some eekRating \<Rightarrow> list_ex (\<lambda>c. \<not> is_space c) (textContent eekRating)))))))"

text \<open>
  The vocabulary of the claims about the energy label. The real structural path is
  present when the document has a wrapper containing a \<open>.vim.x-eek\<close> container
  containing an overlay wrapper containing an icon containing an \<open>.eek\<close> element, each
  anywhere below the one before (the containment that the nested lookups follow). The
  fake marker is present when some \<open>.fake-link\<close> element of the document has a text
  that passes the test.
\<close>

definition real_path_present :: "node \<Rightarrow> bool" where
  "real_path_present doc =
     list_ex (\<lambda>w.
       list_ex (\<lambda>v.
         list_ex (\<lambda>ov.
           list_ex (\<lambda>ic. querySelectorAll [''eek''] ic \<noteq> [])
             (querySelectorAll [''ux-eek-icon''] ov))
           (querySelectorAll [''x-eek__icon-overlay-wrapper''] v))
         (querySelectorAll [''vim'', ''x-eek''] w))
       (querySelectorAll [''x-regulatory-wrapper''] doc)"

definition fake_marker_present :: "node \<Rightarrow> bool" where
  "fake_marker_present doc =
     list_ex (\<lambda>f. eek_regex_test (textContent f)) (querySelectorAll [''fake-link''] doc)"

section \<open>The backend: URL pattern, analysis route (server.js), scraper (scraperService.js)\<close>

text \<open>
  \<open>REGEX_PATTERNS.EBAY_URL.test(url)\<close> for
  \<open>/^https?:\/\/(www\.)?ebay\.(com|de|co\.uk|fr|it|es|com\.au|ca|ch|at|nl|be|ie)\//i\<close>:
  the URL starts, in either case, with one of the finitely many texts that the pattern
  spells.
\<close>

definition ebay_domains :: "string list" where
  "ebay_domains =
     [''com'', ''de'', ''co.uk'', ''fr'', ''it'', ''es'', ''com.au'', ''ca'', ''ch'', ''at'',
      ''nl'', ''be'', ''ie'']"

definition EBAY_URL_test :: "string \<Rightarrow> bool" where
  "EBAY_URL_test u =
     list_ex (\<lambda>scheme.
       list_ex (\<lambda>www.
         list_ex (\<lambda>d. startsWith (toLowerCase u) (scheme @ ''://'' @ www @ ''ebay.'' @ d @ ''/''))
           ebay_domains)
         [[], ''www.''])
       [''http'', ''https'']"

text \<open>
  What \<open>scrapeEbayURL\<close> returns: the three labels and, on the error path,
  \<open>error\<close>. \<open>createErrorResult\<close> builds the error value.
\<close>

record scrape_result =
  sr_productFiche :: string
  sr_energyLabel :: string
  sr_mouseoverLabel :: string
  sr_error :: "string option"


text \<open>
  The server's view of the scraper: \<open>browser\<close> is \<open>null\<close>, connected, or a
  disconnected object. The route reports what it asked of the scraper: a browser start
  (\<open>initBrowser\<close>) and the scrape of a URL.
\<close>

datatype browser_state = NoBrowser | Connected | Disconnected

record server =
  isServerReady :: bool
  browser :: browser_state

datatype scraper_call = InitBrowser | ScrapeEbayURL string

text \<open>
  A response: \<open>Ok\<close> with the body of a successful analysis, or \<open>Failure\<close> with the
  HTTP status, the status line \<open>HTTP <status>: <statusText>\<close> and the \<open>error\<close> text
  of the JSON body.
\<close>

datatype http_response = Ok analysis_result | Failure nat string string

text \<open>
  A request \<open>POST /api/analyze-ebay\<close> with \<open>req.body.url = url\<close> (\<open>None\<close>: no such
  field), through the rate limiter, the middleware that starts the browser on demand and
  the route handler, in the order in which \<open>server.js\<close> registers them. The
  environment gives: whether the limiter rejects, whether a browser start succeeds, what
  \<open>scrapeEbayURL\<close> returns or throws, and the elapsed time.
\<close>

record environment =
  limiter_rejects :: bool
  browser_starts :: bool
  scrape :: "string \<Rightarrow> js_error + scrape_result"
  elapsed :: nat

definition route_handler ::
  "environment \<Rightarrow> string option \<Rightarrow> http_response \<times> scraper_call list" where
  "route_handler env url_field =
     (case url_field of
        None \<Rightarrow> (Failure 400 ''HTTP 400: Bad Request'' ''URL is required'', [])
      | Some u \<Rightarrow>
          if u = [] then (Failure 400 ''HTTP 400: Bad Request'' ''URL is required'', [])
          else if length u < 10 then (Failure 400 ''HTTP 400: Bad Request'' INVALID_URL, [])
          else if \<not> EBAY_URL_test u then (Failure 400 ''HTTP 400: Bad Request'' INVALID_URL, [])
          else
            (case scrape env u of
               Inr result \<Rightarrow>
                 (case sr_error result of
                    Some e \<Rightarrow> (Failure 422 ''HTTP 422: Unprocessable Entity'' e, [ScrapeEbayURL u])
                  | None \<Rightarrow>
                      (Ok \<lparr> res_productFiche = sr_productFiche result,
                            res_energyLabel = sr_energyLabel result,
                            res_mouseoverLabel = sr_mouseoverLabel result,
                            res_processingTime = elapsed env \<rparr>,
                       [ScrapeEbayURL u]))
             | Inl error \<Rightarrow>
                 (Failure 500 ''HTTP 500: Internal Server Error''
                    (if str_includes (message error) ''timeout'' then TIMEOUT_ERROR
                     else if str_includes (message error) ''network''
                             \<or> str_includes (message error) ''fetch'' then NETWORK_ERROR
                     else if str_includes (message error) ''parse''
                       then ''Failed to parse page content''
                     else SERVER_ERROR),
                  [ScrapeEbayURL u])))"

definition analyze_ebay ::
  "server \<Rightarrow> environment \<Rightarrow> string option \<Rightarrow> http_response \<times> server \<times> scraper_call list" where
  "analyze_ebay sv env url_field =
     (if limiter_rejects env
        then (Failure 429 ''HTTP 429: Too Many Requests'' RATE_LIMIT_EXCEEDED, sv, [])
      else if \<not> isServerReady sv
        then (Failure 503 ''HTTP 503: Service Unavailable''
                ''Server is still initializing. Please wait.'', sv, [])
      else if browser sv \<noteq> Connected then
        (if browser_starts env then
           (case route_handler env url_field of
              (resp, calls) \<Rightarrow> (resp, sv\<lparr> browser := Connected \<rparr>, InitBrowser # calls))
         else (Failure 503 ''HTTP 503: Service Unavailable''
                 ''Browser initialization failed. Please try again.'',
               sv\<lparr> browser := NoBrowser \<rparr>, [InitBrowser]))
      else (case route_handler env url_field of (resp, calls) \<Rightarrow> (resp, sv, calls)))"

text \<open>
  How the client's \<open>performRequest\<close> turns a response into its outcome: the parsed body,
  or \<open>new Error(errorData.error || `HTTP ...`)\<close>.
\<close>

definition performRequest_outcome :: "http_response \<Rightarrow> js_error + analysis_result" where
  "performRequest_outcome resp =
     (case resp of
        Ok body \<Rightarrow> Inr body
      | Failure st statusLine err \<Rightarrow>
          Inl (JsError (if err = [] then statusLine else err) None None))"

subsection \<open>Rate limiting in the scraper\<close>

text \<open>
  \<open>respectRateLimit\<close> is an asynchronous method of the one \<open>ScraperService\<close> that
  all requests share: it reads \<open>lastRequestTime\<close> when it is called, awaits the spacing
  delay if one is due, awaits the jitter delay, and only then writes \<open>lastRequestTime\<close>
  and \<open>requestCount\<close>. The route handler awaits \<open>scrapeEbayURL\<close> for every request
  without any lock, so the calls of several requests overlap. An activation of
  \<open>respectRateLimit\<close> is suspended in the spacing delay or in the jitter delay, each
  with the time at which the delay began and its length, or it has returned, at the time
  given, and its request goes on to open its page.
\<close>

datatype activation =
    AwaitSpacing real real
  | AwaitJitter real real
  | Returned real

record scraper =
  lastRequestTime :: real
  requestCount :: nat
  activations :: "activation list"

definition new_ScraperService :: scraper where
  "new_ScraperService = \<lparr> lastRequestTime = 0, requestCount = 0, activations = [] \<rparr>"

definition DELAY_BETWEEN_REQUESTS :: real where
  "DELAY_BETWEEN_REQUESTS = 2000"

definition ebayMinDelay :: real where
  "ebayMinDelay = max (if DELAY_BETWEEN_REQUESTS = 0 then 2000 else DELAY_BETWEEN_REQUESTS) 2000"

text \<open>\<open>Math.random() * 1000 + 500\<close>, for the value \<open>random\<close> of \<open>Math.random()\<close>.\<close>

definition jitter :: "real \<Rightarrow> real" where
  "jitter random = random * 1000 + 500"

text \<open>
  Times are milliseconds. \<open>respectRateLimit_call\<close> is the method from its call at
  \<open>Date.now() = now\<close> to its first suspension; \<open>random\<close> is what \<open>Math.random()\<close>
  returns if it is called in this turn. \<open>respectRateLimit_resume\<close> is the activation
  \<open>i\<close> resumed at the time \<open>now\<close>: a delay is over no earlier than its length after
  its beginning, and a timer that has not run out resumes nothing. After the spacing
  delay the jitter is drawn and awaited; after the jitter delay the two fields are
  written, \<open>lastRequestTime\<close> with the time of that moment and \<open>requestCount\<close> with
  one more than it holds at that moment.
\<close>

definition respectRateLimit_call :: "scraper \<Rightarrow> real \<Rightarrow> real \<Rightarrow> scraper" where
  "respectRateLimit_call sc now random =
     (let timeSinceLastRequest = now - lastRequestTime sc in
      if timeSinceLastRequest < ebayMinDelay
      then sc\<lparr> activations :=
                 activations sc @ [AwaitSpacing now (ebayMinDelay - timeSinceLastRequest)] \<rparr>
      else sc\<lparr> activations := activations sc @ [AwaitJitter now (jitter random)] \<rparr>)"

definition respectRateLimit_resume :: "scraper \<Rightarrow> nat \<Rightarrow> real \<Rightarrow> real \<Rightarrow> scraper" where
  "respectRateLimit_resume sc i now random =
     (if i < length (activations sc) then
        (case activations sc ! i of
           AwaitSpacing since ms \<Rightarrow>
             if now < since + ms then sc
             else sc\<lparr> activations := (activations sc)[i := AwaitJitter now (jitter random)] \<rparr>
         | AwaitJitter since ms \<Rightarrow>
             if now < since + ms then sc
             else sc\<lparr> lastRequestTime := now, requestCount := requestCount sc + 1,
                      activations := (activations sc)[i := Returned now] \<rparr>
         | Returned t \<Rightarrow> sc)
      else sc)"

text \<open>
  The turns of the event loop that concern the rate limiting: a request reaches
  \<open>await this.respectRateLimit()\<close>, or the delay of an activation is over.
\<close>

datatype limiter_event = RateLimitCalled real real | DelayOver nat real real

fun limiter_step :: "scraper \<Rightarrow> limiter_event \<Rightarrow> scraper" where
  "limiter_step sc (RateLimitCalled now random) = respectRateLimit_call sc now random"
| "limiter_step sc (DelayOver i now random) = respectRateLimit_resume sc i now random"

definition limiter_run :: "scraper \<Rightarrow> limiter_event list \<Rightarrow> scraper" where
  "limiter_run sc evs = foldl limiter_step sc evs"

section \<open>Concrete inputs\<close>

text \<open>A network on which every attempt ends in the client's network error.\<close>

definition always_network_error :: "nat \<Rightarrow> js_error + analysis_result" where
  "always_network_error k = Inl (JsError NETWORK_ERROR None None)"

text \<open>A server that answers every attempt with 503 while it is initializing.\<close>

definition always_initializing :: "nat \<Rightarrow> js_error + analysis_result" where
  "always_initializing k =
     performRequest_outcome
       (Failure 503 ''HTTP 503: Service Unavailable'' ''Server is still initializing. Please wait.'')"

definition url_a :: string where
  "url_a = ''https://www.ebay.de/itm/126963032820''"

definition url_b :: string where
  "url_b = ''https://www.ebay.de/itm/127352970063''"

text \<open>
  An engine on two loaded rows after a click on "analyze all" and the server's answer: one
  worker is waiting for the fetch of row 0, row 1 is in the queue.
\<close>

definition engine_first_in_flight :: engine where
  "engine_first_in_flight =
     run (new_AnalysisEngine [fresh_row 0 (Some url_a), fresh_row 1 (Some url_b)])
       [ClickAnalyzeAll, ServerAnswered 0 True]"

text \<open>
  A page whose energy section holds only the text button "EEK A+" (a \<open>.fake-link\<close>),
  and a page with the full interactive label between two \<open>.fake-link\<close> buttons, the
  first one not an EEK button.
\<close>

definition page_fake_only :: node where
  "page_fake_only =
     Element ''#document'' []
       [Element ''html'' []
          [Element ''body'' []
             [Element ''div'' [''x-regulatory-wrapper'']
                [Element ''div'' [''vim'', ''x-eek'']
                   [Element ''button'' [''fake-link''] [Text ''EEK A+'']]]]]]"

definition page_two_fake_links :: node where
  "page_two_fake_links =
     Element ''#document'' []
       [Element ''html'' []
          [Element ''body'' []
             [Element ''div'' [''x-regulatory-wrapper'']
                [Element ''div'' [''vim'', ''x-eek'']
                   [Element ''button'' [''fake-link''] [Text ''Details''],
                    Element ''div'' [''x-eek__icon-overlay-wrapper'']
                      [Element ''span'' [''ux-eek-icon'']
                         [Element ''div'' [''eek'']
                            [Element ''span'' [''eek__rating''] [Text ''A'']]]],
                    Element ''button'' [''fake-link''] [Text ''EEK A+'']]]]]]"

text \<open>
  Some \<open>.vim.x-eek\<close> container below a wrapper holds a \<open>.fake-link\<close> element whose
  text passes the test.
\<close>

definition fake_link_in_container :: "node \<Rightarrow> bool" where
  "fake_link_in_container doc =
     list_ex (\<lambda>w.
       list_ex (\<lambda>v. list_ex (\<lambda>f. eek_regex_test (textContent f)) (querySelectorAll [''fake-link''] v))
         (querySelectorAll [''vim'', ''x-eek''] w))
       (querySelectorAll [''x-regulatory-wrapper''] doc)"

text \<open>
  The server right after its start (services ready, no browser yet), an environment in
  which everything works, and a URL of another site.
\<close>

definition server_after_startup :: server where
  "server_after_startup = \<lparr> isServerReady = True, browser = NoBrowser \<rparr>"

definition env_all_well :: environment where
  "env_all_well =
     \<lparr> limiter_rejects = False, browser_starts = True,
       scrape = (\<lambda>u. Inr \<lparr> sr_productFiche = ''Y'', sr_energyLabel = ''N'',
                            sr_mouseoverLabel = ''N'', sr_error = None \<rparr>),
       elapsed = 1200 \<rparr>"

definition url_other_site :: string where
  "url_other_site = ''https://www.example.com/itm/126963032820''"

subsection \<open>The vocabulary of the claims about jobs\<close>

text \<open>
  A job's classification is fully populated when its three fields are set. The invariant
  as the specification words it, and the part of it that relates each final status to its
  field. A successful response is labelled when it carries the three labels, as the
  route's answer of status 200 does.
\<close>

definition classified :: "row \<Rightarrow> bool" where
  "classified row =
     (productFiche row \<noteq> [] \<and> energyLabelPresent row \<noteq> [] \<and> mouseoverLabel row \<noteq> [])"

definition claimed_job_invariant :: "row \<Rightarrow> bool" where
  "claimed_job_invariant row =
     ((classified row \<longleftrightarrow> status row = Completed)
      \<and> (errorMessage row \<noteq> None \<longleftrightarrow> status row = Error))"

definition job_consistent :: "row \<Rightarrow> bool" where
  "job_consistent row =
     ((status row = Completed \<longrightarrow> classified row)
      \<and> (status row = Error \<longrightarrow> errorMessage row \<noteq> None))"

definition labelled_result :: "analysis_result \<Rightarrow> bool" where
  "labelled_result res =
     (res_productFiche res \<noteq> [] \<and> res_energyLabel res \<noteq> [] \<and> res_mouseoverLabel res \<noteq> [])"

fun labelled_event :: "event \<Rightarrow> bool" where
  "labelled_event (FetchSettled i (Inr res)) = labelled_result res"
| "labelled_event e = True"

text \<open>A run is started by the server's positive answer to a waiting \<open>startAnalysis\<close>.\<close>

fun starts_run :: "event \<Rightarrow> bool" where
  "starts_run (ServerAnswered i serverAvailable) = serverAvailable"
| "starts_run e = False"

text \<open>The rows whose fetch is pending, one entry for every worker waiting in \<open>processRow\<close>.\<close>

fun fetching_row :: "task \<Rightarrow> nat list" where
  "fetching_row (AwaitFetch r rowId) = [r]"
| "fetching_row t = []"

definition fetching :: "engine \<Rightarrow> nat list" where
  "fetching s = concat (map fetching_row (tasks s))"

text \<open>A successful and a failed outcome of \<open>analyzeURL\<close>, and loaded tables.\<close>

definition result_ynn :: analysis_result where
  "result_ynn =
     \<lparr> res_productFiche = ''Y'', res_energyLabel = ''N'', res_mouseoverLabel = ''N'',
       res_processingTime = 1200 \<rparr>"

definition network_failure :: js_error where
  "network_failure = transformError (JsError NETWORK_ERROR None None)"

definition one_row :: "row list" where
  "one_row = [fresh_row 0 (Some url_a)]"

definition six_rows :: "row list" where
  "six_rows =
     [fresh_row 0 (Some ''https://www.ebay.de/itm/100''),
      fresh_row 1 (Some ''https://www.ebay.de/itm/101''),
      fresh_row 2 (Some ''https://www.ebay.de/itm/102''),
      fresh_row 3 (Some ''https://www.ebay.de/itm/103''),
      fresh_row 4 (Some ''https://www.ebay.de/itm/104''),
      fresh_row 5 (Some ''https://www.ebay.de/itm/105'')]"

text \<open>
  Three sessions at the table. In the first, row 0 is selected and analysed, the analysis
  is stopped while its fetch is pending, rows 1 to 5 are selected and analysed, and then
  the old fetch succeeds and its worker wakes up twice. In the second, the only row fails,
  the run completes, and the row is analysed again. In the third, the analysis of two rows
  is stopped while the fetch of row 0 is pending.
\<close>

definition restart_after_stop :: "event list" where
  "restart_after_stop =
     [ClickAnalyzeSelected {0}, ServerAnswered 0 True, ClickStop,
      ClickAnalyzeSelected {1, 2, 3, 4, 5}, ServerAnswered 2 True,
      FetchSettled 1 (Inr result_ynn), TimerFired 1, TimerFired 1]"

definition analyse_again_after_error :: "event list" where
  "analyse_again_after_error =
     [ClickAnalyzeAll, ServerAnswered 0 True, FetchSettled 1 (Inl network_failure),
      TimerFired 1, WorkersDone 0, ClickAnalyzeAll, ServerAnswered 2 True]"

definition engine_stopped_in_flight :: engine where
  "engine_stopped_in_flight = step engine_first_in_flight ClickStop"

text \<open>
  The engine is at rest after a stop: the flag is set, the queue is empty, nothing is
  processing or paused. \<open>only_fetches_settled s s'\<close> relates a state to a later one in
  which nothing happened to the jobs but that pending fetches settled: no further fetch is
  pending, every row without a pending fetch in \<open>s\<close> is as it was, and the counters
  advanced by one for every fetch no longer pending.
\<close>

definition stopped :: "engine \<Rightarrow> bool" where
  "stopped s = (isStopped s \<and> \<not> isProcessing s \<and> \<not> isPaused s \<and> processingQueue s = [])"

definition only_fetches_settled :: "engine \<Rightarrow> engine \<Rightarrow> bool" where
  "only_fetches_settled s s' =
     (length (uploadedData s') = length (uploadedData s)
      \<and> set (fetching s') \<subseteq> set (fetching s)
      \<and> list_all (\<lambda>r. r \<in> set (fetching s) \<or> uploadedData s' ! r = uploadedData s ! r)
           [0 ..< length (uploadedData s)]
      \<and> processedRows s' + length (fetching s') = processedRows s + length (fetching s)
      \<and> successfulRows s' + errorRows s' + length (fetching s')
          = successfulRows s + errorRows s + length (fetching s))"

subsection \<open>The vocabulary of a first run\<close>

text \<open>
  A job is pristine when it is \<open>Pending\<close> with no full classification and no error
  message, as \<open>onDataProcessed\<close> leaves a loaded row. A worker is alive while its
  activation of \<open>processNextRow\<close> has not returned. A batch is well formed when it
  names rows of \<open>uploadedData\<close>, each once, as \<open>analyzeAll\<close> and
  \<open>analyzeSelected\<close> build it.
\<close>

definition pristine :: "row \<Rightarrow> bool" where
  "pristine row = (status row = Pending \<and> \<not> classified row \<and> errorMessage row = None)"

fun alive :: "task \<Rightarrow> bool" where
  "alive AwaitPause = True"
| "alive (AwaitFetch r rowId) = True"
| "alive AwaitRow = True"
| "alive AwaitPace = True"
| "alive t = False"

definition workers_alive :: "engine \<Rightarrow> nat" where
  "workers_alive s = length (filter alive (tasks s))"

fun batch_of :: "task \<Rightarrow> nat list" where
  "batch_of (StartAwaitServer data) = data"
| "batch_of t = []"

definition batches_well_formed :: "engine \<Rightarrow> bool" where
  "batches_well_formed s =
     list_all (\<lambda>t. distinct (batch_of t) \<and> list_all (\<lambda>r. r < length (uploadedData s)) (batch_of t))
       (tasks s)"

text \<open>
  The invariant of a single run on pristine rows: the rows in the queue are pristine; a
  row whose fetch is pending is \<open>Processing\<close> (or \<open>Pending\<close>, after a stop) and
  carries neither classification nor error message; no row is in the queue or with a
  pending fetch twice; every \<open>Processing\<close> row has a pending fetch; and every job
  satisfies the invariant that the specification claims.
\<close>

definition in_flight_row :: "row \<Rightarrow> bool" where
  "in_flight_row row =
     ((status row = Processing \<or> status row = Pending) \<and> \<not> classified row \<and> errorMessage row = None)"

definition single_run :: "engine \<Rightarrow> bool" where
  "single_run s =
     (list_all (\<lambda>r. r < length (uploadedData s) \<and> pristine (uploadedData s ! r)) (processingQueue s)
      \<and> list_all (\<lambda>r. r < length (uploadedData s) \<and> in_flight_row (uploadedData s ! r)) (fetching s)
      \<and> distinct (processingQueue s @ fetching s)
      \<and> list_all (\<lambda>r. status (uploadedData s ! r) = Processing \<longrightarrow> r \<in> set (fetching s))
           [0 ..< length (uploadedData s)]
      \<and> list_all claimed_job_invariant (uploadedData s))"

text \<open>
  Before its run the engine is waiting: nothing is processing, no worker is alive, the
  batches of the suspended calls of \<open>startAnalysis\<close> are well formed and every
  job is pristine. In its run it is running: the invariant of a single run holds and no
  more workers are alive than \<open>maxConcurrentRequests\<close>. A sequence of events holds
  a single start when the server answers a suspended \<open>startAnalysis\<close> positively at
  most once, and every successful response carries the three labels.
\<close>

definition waiting :: "engine \<Rightarrow> bool" where
  "waiting s =
     (\<not> isProcessing s \<and> workers_alive s = 0 \<and> batches_well_formed s
      \<and> list_all pristine (uploadedData s))"

definition running :: "engine \<Rightarrow> bool" where
  "running s = (single_run s \<and> workers_alive s \<le> maxConcurrentRequests s)"

definition single_start :: "event list \<Rightarrow> bool" where
  "single_start evs = (length (filter starts_run evs) \<le> 1 \<and> list_all labelled_event evs)"

text \<open>
  A first run at the table of six rows: all rows are analysed, row 0 succeeds, row 1
  fails, and the worker of row 0 goes on to row 3.
\<close>

definition first_run_events :: "event list" where
  "first_run_events =
     [ClickAnalyzeAll, ServerAnswered 0 True, FetchSettled 1 (Inr result_ynn),
      FetchSettled 2 (Inl network_failure), TimerFired 1, TimerFired 1]"

text \<open>
  Two histories of a new scraper service. In the first, a request passes the rate limiting
  at 10000; then two requests of one batch reach it at 10800 and 10801, while none of them
  has passed, and their delays run out. In the second, a request passes the rate limiting
  at 5500 and works on its page until 15500, and the next request arrives at that moment.
\<close>

definition overlapping_requests :: "limiter_event list" where
  "overlapping_requests =
     [RateLimitCalled 9500 0, DelayOver 0 10000 0,
      RateLimitCalled 10800 0, RateLimitCalled 10801 0,
      DelayOver 1 12000 (1/4), DelayOver 2 12000 (1/2),
      DelayOver 1 12750 0, DelayOver 2 13000 0]"

definition requests_in_turn :: "limiter_event list" where
  "requests_in_turn =
     [RateLimitCalled 5000 0, DelayOver 0 5500 0, RateLimitCalled 15500 0, DelayOver 1 16000 0]"

section \<open>Properties of the API client\<close>

subsection \<open>The retry loop\<close>

lemma retryable_at:
  assumes "all_attempts_retryable perform retries" and "k \<le> retries"
  shows "\<exists>e. perform k = Inl e \<and> \<not> shouldNotRetry e"
proof -
  from assms(2) have "k \<in> set [0 ..< Suc retries]" by auto
  with assms(1) have "case perform k of Inl e \<Rightarrow> \<not> shouldNotRetry e | Inr r \<Rightarrow> False"
    unfolding all_attempts_retryable_def list_all_iff by blast
  then show ?thesis by (cases "perform k") simp_all
qed

lemma makeRequest_loop_exit:
  "retries < attempt \<Longrightarrow> makeRequest_loop c retries perform attempt le = (Inl le, [])"
  by (subst makeRequest_loop.simps) simp

lemma makeRequest_loop_retry:
  "attempt \<le> retries \<Longrightarrow> perform attempt = Inl e \<Longrightarrow> \<not> shouldNotRetry e \<Longrightarrow>
   makeRequest_loop c retries perform attempt le =
     (fst (makeRequest_loop c retries perform (Suc attempt) (Some e)),
      attempt_effects c attempt @ snd (makeRequest_loop c retries perform (Suc attempt) (Some e)))"
  by (subst makeRequest_loop.simps) (simp add: attempt_effects_def split: prod.splits)

lemma makeRequest_loop_stop:
  "attempt \<le> retries \<Longrightarrow> perform attempt = Inl e \<Longrightarrow> shouldNotRetry e \<Longrightarrow>
   makeRequest_loop c retries perform attempt le = (Inl (Some e), attempt_effects c attempt)"
  by (subst makeRequest_loop.simps) (simp add: attempt_effects_def)

lemma makeRequest_loop_return:
  "attempt \<le> retries \<Longrightarrow> perform attempt = Inr res \<Longrightarrow>
   makeRequest_loop c retries perform attempt le = (Inr res, attempt_effects c attempt)"
  by (subst makeRequest_loop.simps) (simp add: attempt_effects_def)

text \<open>
  When every attempt fails and is retried, the loop makes the attempts
  \<open>attempt, ..., retries\<close> and throws the error of the last one.
\<close>

lemma makeRequest_loop_all_fail:
  "all_attempts_retryable perform retries \<Longrightarrow> attempt \<le> retries \<Longrightarrow> perform retries = Inl e \<Longrightarrow>
   makeRequest_loop c retries perform attempt le =
     (Inl (Some e), concat (map (attempt_effects c) [attempt ..< Suc retries]))"
proof (induction "retries - attempt" arbitrary: attempt le)
  case 0
  then have eq: "attempt = retries" by simp
  from retryable_at[OF "0.prems"(1), of retries] "0.prems"(3) have "\<not> shouldNotRetry e" by auto
  then show ?case
    using makeRequest_loop_retry[of retries retries perform e c le] "0.prems"(3)
    by (simp add: eq makeRequest_loop_exit)
next
  case (Suc n)
  then have lt: "attempt < retries" by simp
  from retryable_at[OF Suc.prems(1), of attempt] lt obtain e'
    where e': "perform attempt = Inl e'" "\<not> shouldNotRetry e'" by auto
  have ih: "makeRequest_loop c retries perform (Suc attempt) (Some e') =
     (Inl (Some e), concat (map (attempt_effects c) [Suc attempt ..< Suc retries]))"
    using Suc.hyps(1)[of "Suc attempt" "Some e'"] Suc.hyps(2) Suc.prems lt by simp
  have up: "[attempt ..< Suc retries] = attempt # [Suc attempt ..< Suc retries]"
    using lt by (simp add: upt_conv_Cons del: upt_Suc)
  show ?case
    using makeRequest_loop_retry[of attempt retries perform e' c le] e' lt
    by (simp add: ih up del: upt_Suc)
qed

lemma requests_of_attempts:
  "length (filter is_request (concat (map (attempt_effects c) [a ..< b]))) = b - a"
  by (induction b) (simp_all add: attempt_effects_def Suc_diff_le)

lemma delays_of_attempts:
  "filter (\<lambda>x. \<not> is_request x) (concat (map (attempt_effects c) [0 ..< Suc n])) =
     map (\<lambda>k. Delay (retryDelay c * k)) [1 ..< Suc n]"
proof (induction n)
  case 0
  show ?case by (simp add: attempt_effects_def)
next
  case (Suc n)
  have "[0 ..< Suc (Suc n)] = [0 ..< Suc n] @ [Suc n]" by simp
  moreover have "[1 ..< Suc (Suc n)] = [1 ..< Suc n] @ [Suc n]" by simp
  ultimately show ?case using Suc by (simp add: attempt_effects_def del: upt_Suc)
qed

text \<open>
  Claim C3. When every attempt of a request fails with an error that is retried, the
  client performs, in this order, attempt 0, then for every \<open>k\<close> from 1 to \<open>retries\<close>
  the delay \<open>retryDelay * k\<close> followed by attempt \<open>k\<close>: exactly \<open>retries + 1\<close> requests,
  and the delays \<open>retryDelay * 1, ..., retryDelay * retries\<close>. With the constructor's
  values (2 retries, base 2000) these are three requests and the delays 2000 and 4000,
  as the witness computes.
\<close>

theorem makeRequest_retry_exhaustion:
  assumes "all_attempts_retryable perform (requestOptions_retries c retries_option)"
  shows "snd (makeRequest c retries_option perform) =
           concat (map (attempt_effects c) [0 ..< Suc (requestOptions_retries c retries_option)])
         \<and> length (filter is_request (snd (makeRequest c retries_option perform))) =
             requestOptions_retries c retries_option + 1
         \<and> filter (\<lambda>x. \<not> is_request x) (snd (makeRequest c retries_option perform)) =
             map (\<lambda>k. Delay (retryDelay c * k)) [1 ..< Suc (requestOptions_retries c retries_option)]"
proof -
  let ?n = "requestOptions_retries c retries_option"
  from retryable_at[OF assms, of ?n] obtain e where e: "perform ?n = Inl e" by auto
  have run: "makeRequest c retries_option perform =
      (Inl (Some e), concat (map (attempt_effects c) [0 ..< Suc ?n]))"
    unfolding makeRequest_def using makeRequest_loop_all_fail[OF assms _ e, of 0 c None] by simp
  show ?thesis
    unfolding run snd_conv using requests_of_attempts[of c 0 "Suc ?n"] delays_of_attempts[of c ?n]
    by simp
qed

lemma network_error_retryable: "\<not> shouldNotRetry (JsError NETWORK_ERROR None None)"
  by (simp add: shouldNotRetry_def NETWORK_ERROR_def noRetryMessages_def toLowerCase_def
      toLowerCase_char_def)

lemma always_network_error_retryable: "all_attempts_retryable always_network_error 2"
  by (simp add: all_attempts_retryable_def always_network_error_def upt_rec network_error_retryable)

theorem makeRequest_retry_exhaustion_witness:
  "all_attempts_retryable always_network_error (requestOptions_retries new_ApiClient None)
   \<and> snd (makeRequest new_ApiClient None always_network_error) =
       [PerformRequest 0, Delay 2000, PerformRequest 1, Delay 4000, PerformRequest 2]
   \<and> length (filter is_request (snd (makeRequest new_ApiClient None always_network_error))) = 3
   \<and> filter (\<lambda>x. \<not> is_request x) (snd (makeRequest new_ApiClient None always_network_error)) =
       [Delay 2000, Delay 4000]"
proof -
  have r: "requestOptions_retries new_ApiClient None = 2"
    by (simp add: requestOptions_retries_def new_ApiClient_def)
  have h: "all_attempts_retryable always_network_error (requestOptions_retries new_ApiClient None)"
    unfolding r by (rule always_network_error_retryable)
  have d: "retryDelay new_ApiClient = 2000"
    by (simp add: new_ApiClient_def)
  have tr: "concat (map (attempt_effects new_ApiClient) [0 ..< Suc 2]) =
      [PerformRequest 0, Delay 2000, PerformRequest 1, Delay 4000, PerformRequest 2]"
    by (simp add: upt_rec attempt_effects_def d)
  have dl: "map (\<lambda>k. Delay (retryDelay new_ApiClient * k)) [1 ..< Suc 2] = [Delay 2000, Delay 4000]"
    by (simp add: upt_rec d)
  from makeRequest_retry_exhaustion[OF h] show ?thesis
    unfolding r tr dl using h r by simp
qed

subsection \<open>Errors of a request, from the client to the row\<close>

lemma initializing_retryable:
  "\<not> shouldNotRetry (JsError ''Server is still initializing. Please wait.'' None None)"
  by (simp add: shouldNotRetry_def noRetryMessages_def toLowerCase_def toLowerCase_char_def)

lemma always_initializing_retryable: "all_attempts_retryable always_initializing 2"
  by (simp add: all_attempts_retryable_def always_initializing_def performRequest_outcome_def
      upt_rec initializing_retryable)

lemma transformError_network:
  "transformError (JsError NETWORK_ERROR None None) =
     JsError NETWORK_ERROR (Some ''UNKNOWN_ERROR'') (Some (JsError NETWORK_ERROR None None))"
  by (simp add: transformError_def NETWORK_ERROR_def Let_def)

lemma transformError_initializing:
  "transformError (JsError ''Server is still initializing. Please wait.'' None None) =
     JsError ''Server is starting up. Please wait and try again.'' (Some ''SERVER_INITIALIZING'')
       (Some (JsError ''Server is still initializing. Please wait.'' None None))"
  by (simp add: transformError_def Let_def)

lemma makeRequest_all_fail:
  assumes "all_attempts_retryable perform (requestOptions_retries c retries_option)"
      and "perform (requestOptions_retries c retries_option) = Inl e"
  shows "fst (makeRequest c retries_option perform) = Inl (Some e)"
  unfolding makeRequest_def using makeRequest_loop_all_fail[OF assms(1) _ assms(2), of 0 c None]
  by simp







lemma engine_first_in_flight_state: "engine_first_in_flight =
  \<lparr> isProcessing = True, isPaused = False, isStopped = False, currentIndex = 0,
    totalRows = 2, processedRows = 0, successfulRows = 0, errorRows = 0,
    processingQueue = [1], maxConcurrentRequests = 3, activeRowIds = {0},
    uploadedData = [(fresh_row 0 (Some url_a))\<lparr> status := Processing \<rparr>, fresh_row 1 (Some url_b)],
    tasks = [StartAwaitWorkers [1], AwaitFetch 0 0] \<rparr>"
  by (simp add: engine_first_in_flight_def run_def new_AnalysisEngine_def analyzeAll_def
      startAnalysis_call_def startAnalysis_resume_def task_at_def launch.simps
      worker_loop_head_def worker_pause_loop_def worker_dispatch_def processRow_begin_def
      update_row_def set_task_def fresh_row_def upt_rec Let_def)



subsection \<open>De-duplication of requests for one URL\<close>

text \<open>
  Claim C2 at a failing input. Two calls of \<open>analyzeURL\<close> for one URL overlap: the
  second returns the registered promise and starts no request. When the request fails, the
  caller that started it observes the error made by \<open>transformError\<close> (with a code, and
  for the 503 of an initializing server with another message), the caller that joined
  observes the error as \<open>makeRequest\<close> threw it: the two do not observe the same
  result.
\<close>

theorem joined_caller_observes_another_error:
  "(case analyzeURL_call new_runtime url_a of
      (rt1, first) \<Rightarrow>
        (case analyzeURL_call rt1 url_a of
           (rt2, second) \<Rightarrow>
             first = Started 0 \<and> second = Joined 0 \<and> next_promise rt2 = next_promise rt1
             \<and> analyzeURL_result first (fst (makeRequest (client rt1) None always_initializing)) =
                 Inl (Some (JsError ''Server is starting up. Please wait and try again.''
                              (Some ''SERVER_INITIALIZING'')
                              (Some (JsError ''Server is still initializing. Please wait.'' None None))))
             \<and> analyzeURL_result second (fst (makeRequest (client rt1) None always_initializing)) =
                 Inl (Some (JsError ''Server is still initializing. Please wait.'' None None))
             \<and> analyzeURL_result first (fst (makeRequest (client rt1) None always_network_error)) =
                 Inl (Some (JsError NETWORK_ERROR (Some ''UNKNOWN_ERROR'')
                              (Some (JsError NETWORK_ERROR None None))))
             \<and> analyzeURL_result second (fst (makeRequest (client rt1) None always_network_error)) =
                 Inl (Some (JsError NETWORK_ERROR None None))))"
proof -
  define c1 where "c1 = new_ApiClient\<lparr> activeRequests := [url_a \<mapsto> 0] \<rparr>"
  have r: "requestOptions_retries c1 None = 2"
    by (simp add: c1_def requestOptions_retries_def new_ApiClient_def)
  define rt1 where "rt1 = \<lparr> client = c1, pending_url = [0 \<mapsto> url_a], next_promise = 1 \<rparr>"
  have first: "analyzeURL_call new_runtime url_a = (rt1, Started 0)"
    by (simp add: analyzeURL_call_def new_runtime_def rt1_def c1_def new_ApiClient_def)
  have second: "analyzeURL_call rt1 url_a = (rt1, Joined 0)"
    by (simp add: analyzeURL_call_def rt1_def c1_def)
  have cl: "client rt1 = c1"
    by (simp add: rt1_def)
  have ini: "fst (makeRequest c1 None always_initializing) =
      Inl (Some (JsError ''Server is still initializing. Please wait.'' None None))"
    by (rule makeRequest_all_fail)
       (simp_all add: r always_initializing_retryable, simp add: always_initializing_def performRequest_outcome_def)
  have net: "fst (makeRequest c1 None always_network_error) =
      Inl (Some (JsError NETWORK_ERROR None None))"
    by (rule makeRequest_all_fail)
       (simp_all add: r always_network_error_retryable, simp add: always_network_error_def)
  show ?thesis
    by (simp add: first second cl ini net analyzeURL_result_def catch_rethrow_def
        transformError_network transformError_initializing)
qed

text \<open>
  What holds of the de-duplication: while a request for a URL is registered, a second call
  returns the registered promise and leaves the runtime as it is (no second request); a
  fulfilled promise gives both callers the same value; and when the promise settles, the
  entry of its URL is deleted.
\<close>

lemma analyzeURL_call_registered:
  "activeRequests (client rt) u = Some p \<Longrightarrow> analyzeURL_call rt u = (rt, Joined p)"
  by (simp add: analyzeURL_call_def)

lemma analyzeURL_call_unregistered:
  "activeRequests (client rt) u = None \<Longrightarrow>
   analyzeURL_call rt u =
     (rt\<lparr> client := (client rt)\<lparr> activeRequests := (activeRequests (client rt))(u \<mapsto> next_promise rt) \<rparr>,
          pending_url := (pending_url rt)(next_promise rt \<mapsto> u),
          next_promise := next_promise rt + 1 \<rparr>,
      Started (next_promise rt))"
  by (simp add: analyzeURL_call_def Let_def)

theorem analyzeURL_deduplicates:
  assumes "activeRequests (client rt) u = None"
      and "analyzeURL_call rt u = (rt1, first)"
  shows "first = Started (next_promise rt)
     \<and> analyzeURL_call rt1 u = (rt1, Joined (next_promise rt))
     \<and> analyzeURL_result first (Inr res) = analyzeURL_result (Joined (next_promise rt)) (Inr res)
     \<and> activeRequests (client (promise_settled rt1 (next_promise rt))) u = None"
proof -
  from assms have first: "first = Started (next_promise rt)"
    and rt1: "rt1 = rt\<lparr> client := (client rt)\<lparr> activeRequests := (activeRequests (client rt))(u \<mapsto> next_promise rt) \<rparr>,
          pending_url := (pending_url rt)(next_promise rt \<mapsto> u),
          next_promise := next_promise rt + 1 \<rparr>"
    by (simp_all add: analyzeURL_call_unregistered)
  have reg: "activeRequests (client rt1) u = Some (next_promise rt)"
    by (simp add: rt1)
  have gone: "activeRequests (client (promise_settled rt1 (next_promise rt))) u = None"
    by (simp add: rt1 promise_settled_def)
  show ?thesis
    using first analyzeURL_call_registered[OF reg] gone by (simp add: analyzeURL_result_def)
qed

theorem analyzeURL_deduplicates_witness:
  "activeRequests (client new_runtime) url_a = None
   \<and> analyzeURL_call (fst (analyzeURL_call new_runtime url_a)) url_a =
       (fst (analyzeURL_call new_runtime url_a), Joined 0)
   \<and> activeRequests (client (promise_settled (fst (analyzeURL_call new_runtime url_a)) 0)) url_a = None"
proof -
  have h: "activeRequests (client new_runtime) url_a = None"
    by (simp add: new_runtime_def new_ApiClient_def)
  have n: "next_promise new_runtime = 0"
    by (simp add: new_runtime_def)
  from analyzeURL_deduplicates[OF h, of "fst (analyzeURL_call new_runtime url_a)"
      "snd (analyzeURL_call new_runtime url_a)" "()"]
  show ?thesis using h by (simp add: n)
qed

section \<open>Properties of the DOM analyzer\<close>

lemma querySelector_Some:
  "querySelector sel n = Some x \<Longrightarrow> x \<in> set (querySelectorAll sel n)"
  by (auto simp: querySelector_def split: list.splits)

text \<open>A label is reported only when every lookup of the path has found its element.\<close>

lemma checkEnergielabel_needs_path:
  assumes "checkEnergielabel doc"
  shows "real_path_present doc"
proof -
  from assms obtain w v ov ic e where
    w: "querySelector [''x-regulatory-wrapper''] doc = Some w" and
    v: "querySelector [''vim'', ''x-eek''] w = Some v" and
    ov: "querySelector [''x-eek__icon-overlay-wrapper''] v = Some ov" and
    ic: "querySelector [''ux-eek-icon''] ov = Some ic" and
    e: "querySelector [''eek''] ic = Some e"
    unfolding checkEnergielabel_def by (auto split: option.splits)
  from e have "querySelectorAll [''eek''] ic \<noteq> []"
    using querySelector_Some by fastforce
  then show ?thesis
    unfolding real_path_present_def list_ex_iff
    using querySelector_Some[OF w] querySelector_Some[OF v] querySelector_Some[OF ov]
      querySelector_Some[OF ic] by blast
qed

text \<open>
  Claim C6. A document that holds the fake marker (a \<open>.fake-link\<close> element whose text
  passes the EEK test) and no real structural path (no wrapper containing a
  \<open>.vim.x-eek\<close> container containing an overlay wrapper containing an icon containing
  an \<open>.eek\<close> element) is classified as without energy label. The path is read as
  containment, as the nested lookups of the code follow it. The witness is a page on
  which the single selectors \<open>.fake-link\<close> and \<open>.x-eek\<close> do find the marker.
\<close>

theorem fake_marker_alone_is_absent:
  assumes "fake_marker_present doc" and "\<not> real_path_present doc"
  shows "checkEnergielabel doc = False"
  using assms(2) checkEnergielabel_needs_path by blast

lemma page_fake_only_marker: "fake_marker_present page_fake_only"
  by code_simp

lemma page_fake_only_no_path: "\<not> real_path_present page_fake_only"
  by code_simp

lemma page_fake_only_loose_match:
  "querySelectorAll [''fake-link''] page_fake_only \<noteq> [] \<and> querySelectorAll [''x-eek''] page_fake_only \<noteq> []"
  by code_simp

theorem fake_marker_alone_is_absent_witness:
  "fake_marker_present page_fake_only \<and> \<not> real_path_present page_fake_only
   \<and> querySelectorAll [''fake-link''] page_fake_only \<noteq> []
   \<and> querySelectorAll [''x-eek''] page_fake_only \<noteq> []
   \<and> checkEnergielabel page_fake_only = False"
  using fake_marker_alone_is_absent[OF page_fake_only_marker page_fake_only_no_path]
    page_fake_only_marker page_fake_only_no_path page_fake_only_loose_match
  by simp

text \<open>
  The exclusion as the code applies it: when the first \<open>.fake-link\<close> element of the
  container that the lookups reach passes the EEK test, no label is reported, whatever
  else the document holds.
\<close>

lemma first_fake_link_excludes:
  assumes "querySelector [''x-regulatory-wrapper''] doc = Some w"
      and "querySelector [''vim'', ''x-eek''] w = Some v"
      and "querySelector [''fake-link''] v = Some f"
      and "eek_regex_test (textContent f)"
  shows "checkEnergielabel doc = False"
  using assms by (simp add: checkEnergielabel_def split: option.splits)

text \<open>
  Claim C10 at a failing input. The page holds the full interactive path with a rating,
  and its \<open>.vim.x-eek\<close> container holds a \<open>.fake-link\<close> button with the text "EEK A+";
  but another \<open>.fake-link\<close> button ("Details") comes first in the container, and
  \<open>querySelector\<close> inspects only that one: the label is reported as present.
\<close>

theorem later_fake_link_is_not_excluded:
  "real_path_present page_two_fake_links
   \<and> fake_link_in_container page_two_fake_links
   \<and> checkEnergielabel page_two_fake_links = True"
  by code_simp

section \<open>Properties of the analysis route\<close>

lemma url_required_not_retried: "shouldNotRetry (JsError ''URL is required'' None None)"
  by (simp add: shouldNotRetry_def noRetryMessages_def toLowerCase_def toLowerCase_char_def)

lemma invalid_url_not_retried: "shouldNotRetry (JsError INVALID_URL None None)"
  by (simp add: shouldNotRetry_def INVALID_URL_def noRetryMessages_def toLowerCase_def
      toLowerCase_char_def)

lemma browser_failure_retried:
  "\<not> shouldNotRetry (JsError ''Browser initialization failed. Please try again.'' None None)"
  by (simp add: shouldNotRetry_def noRetryMessages_def toLowerCase_def toLowerCase_char_def)

lemma makeRequest_first_not_retried:
  assumes "perform 0 = Inl e" and "shouldNotRetry e"
  shows "makeRequest c retries_option perform = (Inl (Some e), [PerformRequest 0])"
  unfolding makeRequest_def
  using makeRequest_loop_stop[of 0 _ perform e c None] assms
  by (simp add: attempt_effects_def)

lemma route_handler_invalid:
  assumes "\<not> EBAY_URL_test u"
  shows "route_handler env (Some u) =
     (Failure 400 ''HTTP 400: Bad Request'' (if u = [] then ''URL is required'' else INVALID_URL), [])"
  using assms by (simp add: route_handler_def)

text \<open>
  Claim C8, as the code has it. For a target that fails the eBay URL pattern:
  \<open>scrapeEbayURL\<close> is never called (no page, no rate-limit delay, no navigation); the
  browser is started exactly when the request passes the rate limiter, the services are
  ready and no browser is connected, because the middleware that starts the browser on
  demand runs before the route handler validates the URL. When the browser is connected or
  starts, the answer is HTTP 400 with a validation error that the client does not retry:
  its request is made once and the error is thrown at once. When the browser fails to
  start, the answer is HTTP 503 with an error that the client does retry.
\<close>

theorem invalid_target_is_rejected_before_scraping:
  assumes "\<not> EBAY_URL_test u"
  shows "case analyze_ebay sv env (Some u) of
     (resp, sv', calls) \<Rightarrow>
        (\<forall>v. ScrapeEbayURL v \<notin> set calls)
      \<and> (InitBrowser \<in> set calls \<longleftrightarrow>
           \<not> limiter_rejects env \<and> isServerReady sv \<and> browser sv \<noteq> Connected)
      \<and> (\<not> limiter_rejects env \<and> isServerReady sv \<and> (browser sv = Connected \<or> browser_starts env) \<longrightarrow>
           (\<exists>e. resp = Failure 400 ''HTTP 400: Bad Request'' (message e)
               \<and> performRequest_outcome resp = Inl e
               \<and> shouldNotRetry e
               \<and> (\<forall>c retries_option perform.
                     perform 0 = performRequest_outcome resp \<longrightarrow>
                     makeRequest c retries_option perform = (Inl (Some e), [PerformRequest 0]))))
      \<and> (\<not> limiter_rejects env \<and> isServerReady sv \<and> browser sv \<noteq> Connected \<and> \<not> browser_starts env \<longrightarrow>
           (\<exists>e. resp = Failure 503 ''HTTP 503: Service Unavailable'' (message e)
               \<and> performRequest_outcome resp = Inl e
               \<and> \<not> shouldNotRetry e))"
proof -
  let ?msg = "if u = [] then ''URL is required'' else INVALID_URL"
  let ?e = "JsError ?msg None None"
  have rh: "route_handler env (Some u) = (Failure 400 ''HTTP 400: Bad Request'' ?msg, [])"
    by (rule route_handler_invalid[OF assms])
  have ne: "?msg \<noteq> []"
    by (simp add: INVALID_URL_def)
  have out: "performRequest_outcome (Failure 400 ''HTTP 400: Bad Request'' ?msg) = Inl ?e"
    using ne by (simp add: performRequest_outcome_def)
  have nr: "shouldNotRetry ?e"
    using url_required_not_retried invalid_url_not_retried by simp
  have once: "\<forall>c retries_option perform.
      perform 0 = performRequest_outcome (Failure 400 ''HTTP 400: Bad Request'' ?msg) \<longrightarrow>
      makeRequest c retries_option perform = (Inl (Some ?e), [PerformRequest (0::nat)])"
    unfolding out using makeRequest_first_not_retried[OF _ nr] by blast
  have good: "\<exists>e. Failure 400 ''HTTP 400: Bad Request'' ?msg = Failure 400 ''HTTP 400: Bad Request'' (message e)
       \<and> performRequest_outcome (Failure 400 ''HTTP 400: Bad Request'' ?msg) = Inl e
       \<and> shouldNotRetry e
       \<and> (\<forall>c retries_option perform.
             perform 0 = performRequest_outcome (Failure 400 ''HTTP 400: Bad Request'' ?msg) \<longrightarrow>
             makeRequest c retries_option perform = (Inl (Some e), [PerformRequest (0::nat)]))"
    using out nr once by (intro exI[of _ ?e]) simp
  let ?b = "JsError ''Browser initialization failed. Please try again.'' None None"
  have bad: "\<exists>e. Failure 503 ''HTTP 503: Service Unavailable'' ''Browser initialization failed. Please try again.''
         = Failure 503 ''HTTP 503: Service Unavailable'' (message e)
       \<and> performRequest_outcome (Failure 503 ''HTTP 503: Service Unavailable''
            ''Browser initialization failed. Please try again.'') = Inl e
       \<and> \<not> shouldNotRetry e"
    using browser_failure_retried by (intro exI[of _ ?b]) (simp add: performRequest_outcome_def)
  show ?thesis
    unfolding analyze_ebay_def rh using good bad
    by (simp del: One_nat_def)
qed

lemma url_other_site_invalid: "\<not> EBAY_URL_test url_other_site"
  by (simp add: EBAY_URL_test_def url_other_site_def ebay_domains_def toLowerCase_def toLowerCase_char_def)

lemma url_a_valid: "EBAY_URL_test url_a"
  by (simp add: EBAY_URL_test_def url_a_def ebay_domains_def toLowerCase_def toLowerCase_char_def)

lemma other_site_after_startup:
  "analyze_ebay server_after_startup env_all_well (Some url_other_site) =
     (Failure 400 ''HTTP 400: Bad Request'' INVALID_URL,
      \<lparr> isServerReady = True, browser = Connected \<rparr>, [InitBrowser])"
  using url_other_site_invalid
  by (simp add: analyze_ebay_def route_handler_invalid server_after_startup_def env_all_well_def
      url_other_site_def)

text \<open>
  Claim C8 as stated fails: the first request after the server's start, for a URL of
  another site, is answered with 400 and has started the browser.
\<close>

theorem invalid_target_starts_the_browser:
  "\<not> EBAY_URL_test url_other_site
   \<and> analyze_ebay server_after_startup env_all_well (Some url_other_site) =
       (Failure 400 ''HTTP 400: Bad Request'' INVALID_URL,
        \<lparr> isServerReady = True, browser = Connected \<rparr>, [InitBrowser])
   \<and> InitBrowser \<in> set (snd (snd (analyze_ebay server_after_startup env_all_well (Some url_other_site))))"
  using url_other_site_invalid other_site_after_startup by simp

theorem invalid_target_is_rejected_before_scraping_witness:
  "\<not> EBAY_URL_test url_other_site
   \<and> analyze_ebay server_after_startup env_all_well (Some url_other_site) =
       (Failure 400 ''HTTP 400: Bad Request'' INVALID_URL,
        \<lparr> isServerReady = True, browser = Connected \<rparr>, [InitBrowser])
   \<and> makeRequest new_ApiClient None
        (\<lambda>k. performRequest_outcome (Failure 400 ''HTTP 400: Bad Request'' INVALID_URL)) =
       (Inl (Some (JsError INVALID_URL None None)), [PerformRequest 0])"
proof -
  from invalid_target_is_rejected_before_scraping[OF url_other_site_invalid,
      where sv = server_after_startup and env = env_all_well]
  obtain e where
    e: "performRequest_outcome (Failure 400 ''HTTP 400: Bad Request'' INVALID_URL) = Inl e" and
    once: "\<forall>c retries_option perform.
        perform 0 = performRequest_outcome (Failure 400 ''HTTP 400: Bad Request'' INVALID_URL) \<longrightarrow>
        makeRequest c retries_option perform = (Inl (Some e), [PerformRequest (0::nat)])"
    unfolding other_site_after_startup
    by (auto simp: server_after_startup_def env_all_well_def)
  from e have e_eq: "e = JsError INVALID_URL None None"
    by (simp add: performRequest_outcome_def INVALID_URL_def)
  from once[THEN spec, THEN spec, THEN spec, where x2 = new_ApiClient and x1 = None
      and x = "\<lambda>k. performRequest_outcome (Failure 400 ''HTTP 400: Bad Request'' INVALID_URL)"]
  have "makeRequest new_ApiClient None
        (\<lambda>k. performRequest_outcome (Failure 400 ''HTTP 400: Bad Request'' INVALID_URL)) =
       (Inl (Some e), [PerformRequest 0])"
    by simp
  then show ?thesis
    using url_other_site_invalid other_site_after_startup e_eq by simp
qed

section \<open>Properties of the rate limiting\<close>

text \<open>
  What one call does. Called at \<open>now\<close>, it waits until 2000 ms after the value of
  \<open>lastRequestTime\<close> that it reads at its call, if that moment is still to come; the
  jitter that it draws lies between 500 and 1500 ms (\<open>Math.random()\<close> lies in
  \<open>[0, 1)\<close>); and when the jitter delay is over it writes the two fields.
\<close>

lemma jitter_bounds:
  assumes "0 \<le> random" and "random < 1"
  shows "500 \<le> jitter random" and "jitter random \<le> 1500"
  using assms by (simp_all add: jitter_def)

lemma respectRateLimit_call_waits:
  "respectRateLimit_call sc now random =
     sc\<lparr> activations := activations sc @
       [if now < lastRequestTime sc + 2000
        then AwaitSpacing now (lastRequestTime sc + 2000 - now)
        else AwaitJitter now (jitter random)] \<rparr>"
  by (simp add: respectRateLimit_call_def ebayMinDelay_def DELAY_BETWEEN_REQUESTS_def Let_def)

lemma respectRateLimit_resume_spacing:
  assumes "i < length (activations sc)" and "activations sc ! i = AwaitSpacing since ms"
  shows "respectRateLimit_resume sc i now random =
     (if now < since + ms then sc
      else sc\<lparr> activations := (activations sc)[i := AwaitJitter now (jitter random)] \<rparr>)"
  using assms by (simp add: respectRateLimit_resume_def)

lemma respectRateLimit_resume_jitter:
  assumes "i < length (activations sc)" and "activations sc ! i = AwaitJitter since ms"
  shows "respectRateLimit_resume sc i now random =
     (if now < since + ms then sc
      else sc\<lparr> lastRequestTime := now, requestCount := requestCount sc + 1,
               activations := (activations sc)[i := Returned now] \<rparr>)"
  using assms by (simp add: respectRateLimit_resume_def)

text \<open>
  Claim C9 at a failing input. A request has passed the rate limiting at 10000. Two
  requests reach it at 10800 and 10801, before either has passed: both read
  \<open>lastRequestTime = 10000\<close> and both wait until 12000. With jitters of 750 and 1000 ms
  they pass at 12750 and 13000 and open their pages 250 ms apart, less than the minimum
  delay between requests of 2000 ms: the spacing is taken from a value that the calls
  under way have not yet written.
\<close>

theorem overlapping_requests_are_not_spaced:
  "limiter_run new_ScraperService (take 4 overlapping_requests)
     = \<lparr> lastRequestTime = 10000, requestCount = 1,
         activations = [Returned 10000, AwaitSpacing 10800 1200, AwaitSpacing 10801 1199] \<rparr>
   \<and> limiter_run new_ScraperService overlapping_requests
     = \<lparr> lastRequestTime = 13000, requestCount = 3,
         activations = [Returned 10000, Returned 12750, Returned 13000] \<rparr>
   \<and> (13000::real) - 12750 < ebayMinDelay"
  by (simp add: overlapping_requests_def limiter_run_def respectRateLimit_call_def
      respectRateLimit_resume_def new_ScraperService_def ebayMinDelay_def
      DELAY_BETWEEN_REQUESTS_def jitter_def Let_def)

text \<open>
  Requests that do not overlap are spaced from the moment at which the one before passed
  the rate limiting, not from its end: a request passes at 5500 and ends at 15500; the
  next one arrives at that moment, finds 10000 ms passed since \<open>lastRequestTime\<close>,
  waits only the jitter and opens its page at 16000, 500 ms after the end of the request
  before.
\<close>

theorem spacing_is_not_measured_from_the_end:
  "limiter_run new_ScraperService (take 3 requests_in_turn)
     = \<lparr> lastRequestTime = 5500, requestCount = 1,
         activations = [Returned 5500, AwaitJitter 15500 500] \<rparr>
   \<and> limiter_run new_ScraperService requests_in_turn
     = \<lparr> lastRequestTime = 16000, requestCount = 2,
         activations = [Returned 5500, Returned 16000] \<rparr>"
  by (simp add: requests_in_turn_def limiter_run_def respectRateLimit_call_def
      respectRateLimit_resume_def new_ScraperService_def ebayMinDelay_def
      DELAY_BETWEEN_REQUESTS_def jitter_def Let_def)

section \<open>Properties of the analysis engine\<close>

lemma run_Nil: "run s [] = s"
  by (simp add: run_def)

lemma run_Cons: "run s (e # evs) = run (step s e) evs"
  by (simp add: run_def)

lemma run_append: "run s (evs @ evs') = run (run s evs) evs'"
  by (simp add: run_def)

lemma uploadedData_set_task: "uploadedData (set_task s i t) = uploadedData s"
  by (simp add: set_task_def)

lemma list_all_update:
  assumes "list_all P xs" and "r < length xs \<Longrightarrow> P (f (xs ! r))"
  shows "list_all P (xs[r := f (xs ! r)])"
proof (cases "r < length xs")
  case True
  with assms show ?thesis
    unfolding list_all_iff using set_update_subset_insert[of xs r "f (xs ! r)"] by auto
next
  case False
  then have "length xs \<le> r" by (simp add: not_less)
  then have "xs[r := f (xs ! r)] = xs" by (rule list_update_beyond)
  with assms(1) show ?thesis by simp
qed

subsection \<open>Every row keeps its final status together with its field\<close>

lemma consistent_update_row:
  assumes "list_all job_consistent (uploadedData s)" and "\<And>row. job_consistent (f row)"
  shows "list_all job_consistent (uploadedData (update_row s r f))"
  using assms by (simp add: update_row_def list_all_update)

lemma consistent_processRow_then:
  assumes "list_all job_consistent (uploadedData s)" and "labelled_result res"
  shows "list_all job_consistent (uploadedData (processRow_then s r res))"
  using consistent_update_row[OF assms(1), of _ r] assms(2)
  by (simp add: processRow_then_def job_consistent_def classified_def labelled_result_def)

lemma consistent_processRow_catch:
  assumes "list_all job_consistent (uploadedData s)"
  shows "list_all job_consistent (uploadedData (processRow_catch s r err))"
  using consistent_update_row[OF assms, of _ r]
  by (simp add: processRow_catch_def job_consistent_def)

lemma uploadedData_processRow_finally:
  "uploadedData (processRow_finally s rowId) = uploadedData s"
  by (simp add: processRow_finally_def)

lemma consistent_processRow_begin:
  assumes "list_all job_consistent (uploadedData s)"
  shows "list_all job_consistent (uploadedData (fst (processRow_begin s r)))"
proof -
  have marked: "list_all job_consistent
      (uploadedData (update_row s r (\<lambda>row. row\<lparr> status := Processing \<rparr>)))"
    by (rule consistent_update_row[OF assms]) (simp add: job_consistent_def)
  show ?thesis
    using assms marked consistent_processRow_catch[OF marked]
    by (simp add: processRow_begin_def Let_def uploadedData_processRow_finally split: option.splits)
qed

lemma consistent_worker_dispatch:
  assumes "list_all job_consistent (uploadedData s)"
  shows "list_all job_consistent (uploadedData (worker_dispatch s i))"
proof -
  have "list_all job_consistent (uploadedData (fst (processRow_begin (s\<lparr> processingQueue := rest \<rparr>) r)))"
    for r rest
    by (rule consistent_processRow_begin) (simp add: assms)
  then show ?thesis
    using assms
    by (simp add: worker_dispatch_def uploadedData_set_task case_prod_beta split: list.splits)
qed

lemma consistent_worker_pause_loop:
  "list_all job_consistent (uploadedData s) \<Longrightarrow>
   list_all job_consistent (uploadedData (worker_pause_loop s i))"
  by (simp add: worker_pause_loop_def uploadedData_set_task consistent_worker_dispatch)

lemma consistent_worker_loop_head:
  "list_all job_consistent (uploadedData s) \<Longrightarrow>
   list_all job_consistent (uploadedData (worker_loop_head s i))"
  by (simp add: worker_loop_head_def uploadedData_set_task consistent_worker_pause_loop)

lemma consistent_worker_after_row:
  "list_all job_consistent (uploadedData s) \<Longrightarrow>
   list_all job_consistent (uploadedData (worker_after_row s i))"
  by (simp add: worker_after_row_def uploadedData_set_task consistent_worker_loop_head)

lemma consistent_launch:
  "list_all job_consistent (uploadedData s) \<Longrightarrow>
   list_all job_consistent (uploadedData (fst (launch m s i ws)))"
proof (induction m s i ws rule: launch.induct)
  case (1 m s i ws)
  show ?case
  proof (cases "i < min m (length (processingQueue s))")
    case True
    have "list_all job_consistent
        (uploadedData (worker_loop_head (s\<lparr> tasks := tasks s @ [Finished] \<rparr>) (length (tasks s))))"
      by (rule consistent_worker_loop_head) (simp add: "1.prems")
    from "1.IH"[OF True refl this] show ?thesis
      by (subst launch.simps, subst if_P[OF True]) (simp add: Let_def)
  next
    case False
    show ?thesis
      by (subst launch.simps, subst if_not_P[OF False]) (simp add: "1.prems")
  qed
qed

lemma consistent_startAnalysis_resume:
  assumes "list_all job_consistent (uploadedData s)"
  shows "list_all job_consistent (uploadedData (startAnalysis_resume s i data serverAvailable))"
proof -
  have "list_all job_consistent (uploadedData (fst (launch m
      (s\<lparr> isProcessing := True, isPaused := False, isStopped := False,
           currentIndex := 0, processedRows := 0, successfulRows := 0,
           errorRows := 0, totalRows := length data, processingQueue := data,
           activeRowIds := {} \<rparr>) 0 [])))" for m
    by (rule consistent_launch) (simp add: assms)
  then show ?thesis
    using assms
    by (simp add: startAnalysis_resume_def Let_def uploadedData_set_task case_prod_beta)
qed

lemma consistent_stopAnalysis:
  assumes "list_all job_consistent (uploadedData s)"
  shows "list_all job_consistent (uploadedData (stopAnalysis s))"
  using assms by (auto simp: stopAnalysis_def list_all_iff job_consistent_def)

lemma consistent_step:
  assumes "list_all job_consistent (uploadedData s)" and "labelled_event e"
  shows "list_all job_consistent (uploadedData (step s e))"
proof (cases e)
  case ClickAnalyzeAll
  with assms show ?thesis by (simp add: analyzeAll_def startAnalysis_call_def)
next
  case (ClickAnalyzeSelected sel)
  with assms show ?thesis by (simp add: analyzeSelected_def startAnalysis_call_def)
next
  case ClickPause
  with assms show ?thesis by (simp add: pauseAnalysis_def)
next
  case ClickResume
  with assms show ?thesis by (simp add: resumeAnalysis_def)
next
  case ClickStop
  with assms show ?thesis by (simp add: consistent_stopAnalysis)
next
  case (ServerAnswered i b)
  with assms show ?thesis
    by (simp add: consistent_startAnalysis_resume split: task.splits)
next
  case (TimerFired i)
  with assms show ?thesis
    by (simp add: consistent_worker_pause_loop consistent_worker_after_row
        consistent_worker_loop_head split: task.splits)
next
  case (FetchSettled i outcome)
  show ?thesis
  proof (cases outcome)
    case (Inl err)
    with FetchSettled assms show ?thesis
      by (simp add: processRow_resume_def uploadedData_set_task uploadedData_processRow_finally
          consistent_processRow_catch split: task.splits)
  next
    case (Inr res)
    with FetchSettled assms show ?thesis
      by (simp add: processRow_resume_def uploadedData_set_task uploadedData_processRow_finally
          consistent_processRow_then split: task.splits)
  qed
next
  case (WorkersDone i)
  with assms show ?thesis
    by (simp add: completeAnalysis_def uploadedData_set_task split: task.splits)
qed

text \<open>
  From any state in which every job with status \<open>Completed\<close> has its three
  classification fields set and every job with status \<open>Error\<close> has its error
  message set, every sequence of events leads to such a state again, provided the
  successful responses carry the three labels.
\<close>

lemma job_consistent_run:
  assumes "list_all job_consistent (uploadedData s)" and "list_all labelled_event evs"
  shows "list_all job_consistent (uploadedData (run s evs))"
  using assms
proof (induction evs arbitrary: s)
  case Nil
  then show ?case by (simp add: run_Nil)
next
  case (Cons e evs)
  then show ?case by (simp add: run_Cons consistent_step)
qed

subsection \<open>After a stop\<close>

lemma fetching_append: "fetching (s\<lparr> tasks := tasks s @ [t] \<rparr>) = fetching s @ fetching_row t"
  by (simp add: fetching_def)

lemma length_fetching_update:
  "i < length ts \<Longrightarrow>
   length (concat (map fetching_row (ts[i := t]))) + length (fetching_row (ts ! i))
     = length (concat (map fetching_row ts)) + length (fetching_row t)"
proof (induction ts arbitrary: i)
  case Nil
  then show ?case by simp
next
  case (Cons a ts)
  then show ?case by (cases i) simp_all
qed

lemma set_fetching_update:
  "set (concat (map fetching_row (ts[i := t])))
     \<subseteq> set (fetching_row t) \<union> set (concat (map fetching_row ts))"
  using set_update_subset_insert[of ts i t] by auto

lemma only_fetches_settledI:
  assumes "length (uploadedData s') = length (uploadedData s)"
      and "set (fetching s') \<subseteq> set (fetching s)"
      and "\<And>r. r < length (uploadedData s) \<Longrightarrow> r \<notin> set (fetching s) \<Longrightarrow>
               uploadedData s' ! r = uploadedData s ! r"
      and "processedRows s' + length (fetching s') = processedRows s + length (fetching s)"
      and "successfulRows s' + errorRows s' + length (fetching s')
            = successfulRows s + errorRows s + length (fetching s)"
  shows "only_fetches_settled s s'"
  unfolding only_fetches_settled_def list_all_iff
proof (intro conjI ballI)
  fix r assume "r \<in> set [0 ..< length (uploadedData s)]"
  then have "r < length (uploadedData s)" by simp
  with assms(3)[of r] show "r \<in> set (fetching s) \<or> uploadedData s' ! r = uploadedData s ! r"
    by blast
qed (use assms in simp_all)

lemma only_fetches_settledD:
  assumes "only_fetches_settled s s'"
  shows "length (uploadedData s') = length (uploadedData s)"
    and "set (fetching s') \<subseteq> set (fetching s)"
    and "\<And>r. r < length (uploadedData s) \<Longrightarrow> r \<notin> set (fetching s) \<Longrightarrow>
               uploadedData s' ! r = uploadedData s ! r"
    and "processedRows s' + length (fetching s') = processedRows s + length (fetching s)"
    and "successfulRows s' + errorRows s' + length (fetching s')
            = successfulRows s + errorRows s + length (fetching s)"
  using assms unfolding only_fetches_settled_def list_all_iff by auto

lemma only_fetches_settled_refl: "only_fetches_settled s s"
  by (rule only_fetches_settledI) simp_all

lemma only_fetches_settled_trans:
  assumes a: "only_fetches_settled s s'" and b: "only_fetches_settled s' s''"
  shows "only_fetches_settled s s''"
proof (rule only_fetches_settledI)
  note a' = only_fetches_settledD[OF a] and b' = only_fetches_settledD[OF b]
  show "length (uploadedData s'') = length (uploadedData s)"
    using a'(1) b'(1) by simp
  show "set (fetching s'') \<subseteq> set (fetching s)"
    using a'(2) b'(2) by blast
  show "uploadedData s'' ! r = uploadedData s ! r"
    if "r < length (uploadedData s)" "r \<notin> set (fetching s)" for r
  proof -
    from that a'(2) have "r \<notin> set (fetching s')" by blast
    with that a'(1) b'(3)[of r] a'(3)[of r] show ?thesis by simp
  qed
  show "processedRows s'' + length (fetching s'') = processedRows s + length (fetching s)"
    using a'(4) b'(4) by linarith
  show "successfulRows s'' + errorRows s'' + length (fetching s'')
          = successfulRows s + errorRows s + length (fetching s)"
    using a'(5) b'(5) by linarith
qed

text \<open>Changing an activation that is not waiting for a fetch into another such one.\<close>

lemma only_fetches_settled_set_task:
  assumes "fetching_row (task_at s i) = []" and "fetching_row t = []"
  shows "only_fetches_settled s (set_task s i t)"
proof (cases "i < length (tasks s)")
  case True
  with assms(1) have old: "fetching_row (tasks s ! i) = []"
    by (simp add: task_at_def)
  have len: "length (fetching (set_task s i t)) = length (fetching s)"
    using length_fetching_update[OF True, of t] old assms(2)
    by (simp add: fetching_def set_task_def)
  have sub: "set (fetching (set_task s i t)) \<subseteq> set (fetching s)"
    using set_fetching_update[of "tasks s" i t] assms(2)
    by (simp add: fetching_def set_task_def)
  show ?thesis
    by (rule only_fetches_settledI) (use len sub in \<open>simp_all add: set_task_def\<close>)
next
  case False
  then have "(tasks s)[i := t] = tasks s"
    by (intro list_update_beyond) (simp add: not_less)
  then have "set_task s i t = s"
    by (simp add: set_task_def)
  then show ?thesis
    by (simp add: only_fetches_settled_refl)
qed

lemma only_fetches_settled_new_task:
  assumes "fetching_row t = []"
  shows "only_fetches_settled s (s\<lparr> tasks := tasks s @ [t] \<rparr>)"
  by (rule only_fetches_settledI) (simp_all add: fetching_append assms)

text \<open>A pending fetch settles: its row is written, the counters advance by one.\<close>

lemma only_fetches_settled_fetch:
  assumes "task_at s i = AwaitFetch r rowId"
  shows "only_fetches_settled s (set_task (processRow_resume s r rowId outcome) i AwaitRow)"
proof -
  have i: "i < length (tasks s)" and ti: "tasks s ! i = AwaitFetch r rowId"
    using assms by (simp_all add: task_at_def split: if_splits)
  let ?s' = "set_task (processRow_resume s r rowId outcome) i AwaitRow"
  have tasks': "tasks ?s' = (tasks s)[i := AwaitRow]"
    by (cases outcome)
       (simp_all add: set_task_def processRow_resume_def processRow_finally_def
         processRow_then_def processRow_catch_def update_row_def)
  have "AwaitFetch r rowId \<in> set (tasks s)"
    using nth_mem[OF i] ti by simp
  then have r_in: "r \<in> set (fetching s)"
    unfolding fetching_def by (auto intro!: bexI[of _ "AwaitFetch r rowId"])
  have len: "length (fetching ?s') + 1 = length (fetching s)"
    using length_fetching_update[OF i, of AwaitRow] ti
    by (simp add: fetching_def tasks')
  have sub: "set (fetching ?s') \<subseteq> set (fetching s)"
    using set_fetching_update[of "tasks s" i AwaitRow]
    by (simp add: fetching_def tasks')
  have counters: "processedRows ?s' = processedRows s + 1"
      "successfulRows ?s' + errorRows ?s' = successfulRows s + errorRows s + 1"
    by (cases outcome;
        simp add: set_task_def processRow_resume_def processRow_finally_def
         processRow_then_def processRow_catch_def update_row_def)+
  show ?thesis
  proof (rule only_fetches_settledI)
    show "length (uploadedData ?s') = length (uploadedData s)"
      by (cases outcome)
         (simp_all add: set_task_def processRow_resume_def processRow_finally_def
           processRow_then_def processRow_catch_def update_row_def)
    show "set (fetching ?s') \<subseteq> set (fetching s)" by (rule sub)
    show "uploadedData ?s' ! q = uploadedData s ! q"
      if "q < length (uploadedData s)" "q \<notin> set (fetching s)" for q
    proof -
      from that r_in have "q \<noteq> r" by blast
      then show ?thesis
        by (cases outcome)
           (simp_all add: set_task_def processRow_resume_def processRow_finally_def
             processRow_then_def processRow_catch_def update_row_def)
    qed
    show "processedRows ?s' + length (fetching ?s') = processedRows s + length (fetching s)"
      using counters(1) len by linarith
    show "successfulRows ?s' + errorRows ?s' + length (fetching ?s')
            = successfulRows s + errorRows s + length (fetching s)"
      using counters(2) len by linarith
  qed
qed

text \<open>At rest after a stop, a resumed worker returns without taking a row.\<close>

lemma stopped_worker_returns:
  assumes "stopped s"
  shows "worker_pause_loop s i = set_task s i Finished"
    and "worker_loop_head s i = set_task s i Finished"
    and "worker_after_row s i = set_task s i Finished"
  using assms
  by (simp_all add: stopped_def worker_pause_loop_def worker_dispatch_def worker_loop_head_def
      worker_after_row_def)

lemma stopped_set_task: "stopped (set_task s i t) = stopped s"
  by (simp add: stopped_def set_task_def)

lemma stopped_step:
  assumes "stopped s" and "\<not> starts_run e"
  shows "stopped (step s e) \<and> only_fetches_settled s (step s e)"
proof (cases e)
  case ClickAnalyzeAll
  with assms(1) show ?thesis
    using only_fetches_settled_new_task[of "StartAwaitServer [0 ..< length (uploadedData s)]" s]
    by (simp add: analyzeAll_def startAnalysis_call_def stopped_def only_fetches_settled_refl)
next
  case (ClickAnalyzeSelected sel)
  with assms(1) show ?thesis
    using only_fetches_settled_new_task[of "StartAwaitServer data" s for data]
    by (simp add: analyzeSelected_def startAnalysis_call_def stopped_def only_fetches_settled_refl)
next
  case ClickPause
  with assms(1) show ?thesis
    by (simp add: pauseAnalysis_def stopped_def only_fetches_settled_refl)
next
  case ClickResume
  with assms(1) show ?thesis
    by (simp add: resumeAnalysis_def stopped_def only_fetches_settled_refl)
next
  case ClickStop
  with assms(1) show ?thesis
    by (simp add: stopAnalysis_def stopped_def only_fetches_settled_refl)
next
  case (ServerAnswered i b)
  with assms(2) have b: "\<not> b" by simp
  show ?thesis
  proof (cases "task_at s i")
    case (StartAwaitServer data)
    with ServerAnswered b assms(1) show ?thesis
      by (simp add: startAnalysis_resume_def stopped_set_task only_fetches_settled_set_task)
  qed (use ServerAnswered assms(1) in \<open>simp_all add: only_fetches_settled_refl\<close>)
next
  case (TimerFired i)
  show ?thesis
    by (cases "task_at s i")
       (use TimerFired assms(1) in \<open>simp_all add: stopped_worker_returns stopped_set_task
          only_fetches_settled_set_task only_fetches_settled_refl\<close>)
next
  case (FetchSettled i outcome)
  show ?thesis
  proof (cases "task_at s i")
    case (AwaitFetch r rowId)
    have "stopped (processRow_resume s r rowId outcome)"
      using assms(1)
      by (cases outcome)
         (simp_all add: stopped_def processRow_resume_def processRow_finally_def
           processRow_then_def processRow_catch_def update_row_def)
    with FetchSettled AwaitFetch show ?thesis
      by (simp add: stopped_set_task only_fetches_settled_fetch)
  qed (use FetchSettled assms(1) in \<open>simp_all add: only_fetches_settled_refl\<close>)
next
  case (WorkersDone i)
  show ?thesis
  proof (cases "task_at s i")
    case (StartAwaitWorkers ws)
    have c: "completeAnalysis s = s"
      using assms(1) by (simp add: completeAnalysis_def stopped_def)
    from WorkersDone StartAwaitWorkers assms(1) show ?thesis
      by (simp add: c stopped_set_task only_fetches_settled_set_task only_fetches_settled_refl)
  qed (use WorkersDone assms(1) in \<open>simp_all add: only_fetches_settled_refl\<close>)
qed

lemma stopped_run:
  assumes "stopped s" and "list_all (\<lambda>e. \<not> starts_run e) evs"
  shows "stopped (run s evs) \<and> only_fetches_settled s (run s evs)"
  using assms
proof (induction evs arbitrary: s)
  case Nil
  then show ?case by (simp add: run_Nil only_fetches_settled_refl)
next
  case (Cons e evs)
  from Cons.prems have e: "\<not> starts_run e" and evs: "list_all (\<lambda>e. \<not> starts_run e) evs"
    by simp_all
  from stopped_step[OF Cons.prems(1) e]
  have s1: "stopped (step s e)" and r1: "only_fetches_settled s (step s e)" by simp_all
  from Cons.IH[OF s1 evs] r1 show ?case
    by (auto simp: run_Cons intro: only_fetches_settled_trans)
qed

lemma stopAnalysis_stops:
  assumes "isProcessing s"
  shows "stopped (stopAnalysis s)"
    and "fetching (stopAnalysis s) = fetching s"
    and "length (uploadedData (stopAnalysis s)) = length (uploadedData s)"
    and "r < length (uploadedData s) \<Longrightarrow>
         uploadedData (stopAnalysis s) ! r =
           (if status (uploadedData s ! r) = Processing
            then (uploadedData s ! r)\<lparr> status := Pending \<rparr> else uploadedData s ! r)"
    and "processedRows (stopAnalysis s) = processedRows s"
    and "successfulRows (stopAnalysis s) = successfulRows s"
    and "errorRows (stopAnalysis s) = errorRows s"
  using assms by (simp_all add: stopAnalysis_def stopped_def fetching_def)

text \<open>
  What a stop does keep. \<open>stopAnalysis\<close> is called during a run, and no new run is
  started afterwards. Then, whatever happens: the queue stays empty and the stop flag
  set; no job is dispatched (the pending fetches are among those pending at the stop);
  every job without a pending fetch is left as the stop left it, \<open>Pending\<close> when it was
  \<open>Pending\<close> or \<open>Processing\<close> and otherwise untouched; and the counters are those of
  the moment of the stop plus one for every fetch that was pending then and has settled
  since.
\<close>

theorem stop_keeps_pending_jobs_and_lets_fetches_settle:
  assumes "isProcessing s" and "list_all (\<lambda>e. \<not> starts_run e) evs"
  shows "let s' = run (stopAnalysis s) evs in
      processingQueue s' = [] \<and> isStopped s'
    \<and> set (fetching s') \<subseteq> set (fetching s)
    \<and> list_all (\<lambda>r. r \<in> set (fetching s)
                   \<or> uploadedData s' ! r =
                       (if status (uploadedData s ! r) = Processing
                        then (uploadedData s ! r)\<lparr> status := Pending \<rparr> else uploadedData s ! r))
         [0 ..< length (uploadedData s)]
    \<and> list_all (\<lambda>r. r \<in> set (fetching s) \<or> status (uploadedData s ! r) \<noteq> Pending
                   \<or> status (uploadedData s' ! r) = Pending)
         [0 ..< length (uploadedData s)]
    \<and> processedRows s' + length (fetching s') = processedRows s + length (fetching s)
    \<and> successfulRows s' + errorRows s' + length (fetching s')
        = successfulRows s + errorRows s + length (fetching s)"
proof -
  define s' where "s' = run (stopAnalysis s) evs"
  note st = stopAnalysis_stops[OF assms(1)]
  from stopped_run[OF st(1) assms(2)]
  have stopped': "stopped s'" and rel: "only_fetches_settled (stopAnalysis s) s'"
    unfolding s'_def by simp_all
  note d = only_fetches_settledD[OF rel]
  have rows: "uploadedData s' ! r =
      (if status (uploadedData s ! r) = Processing
       then (uploadedData s ! r)\<lparr> status := Pending \<rparr> else uploadedData s ! r)"
    if "r < length (uploadedData s)" "r \<notin> set (fetching s)" for r
    using d(3)[of r] that st(2,3) st(4)[of r] by simp
  have pending: "status (uploadedData s' ! r) = Pending"
    if "r < length (uploadedData s)" "r \<notin> set (fetching s)" "status (uploadedData s ! r) = Pending" for r
    using rows[OF that(1,2)] that(3) by simp
  have "processingQueue s' = [] \<and> isStopped s'"
    using stopped' by (simp add: stopped_def)
  moreover have "set (fetching s') \<subseteq> set (fetching s)"
    using d(2) st(2) by simp
  moreover have "list_all (\<lambda>r. r \<in> set (fetching s)
                   \<or> uploadedData s' ! r =
                       (if status (uploadedData s ! r) = Processing
                        then (uploadedData s ! r)\<lparr> status := Pending \<rparr> else uploadedData s ! r))
         [0 ..< length (uploadedData s)]"
    unfolding list_all_iff
  proof
    fix r assume "r \<in> set [0 ..< length (uploadedData s)]"
    then have "r < length (uploadedData s)" by simp
    from rows[OF this] show "r \<in> set (fetching s)
                   \<or> uploadedData s' ! r =
                       (if status (uploadedData s ! r) = Processing
                        then (uploadedData s ! r)\<lparr> status := Pending \<rparr> else uploadedData s ! r)"
      by blast
  qed
  moreover have "list_all (\<lambda>r. r \<in> set (fetching s) \<or> status (uploadedData s ! r) \<noteq> Pending
                   \<or> status (uploadedData s' ! r) = Pending)
         [0 ..< length (uploadedData s)]"
    unfolding list_all_iff
  proof
    fix r assume "r \<in> set [0 ..< length (uploadedData s)]"
    then have "r < length (uploadedData s)" by simp
    from pending[OF this] show "r \<in> set (fetching s) \<or> status (uploadedData s ! r) \<noteq> Pending
                   \<or> status (uploadedData s' ! r) = Pending"
      by blast
  qed
  moreover have "processedRows s' + length (fetching s') = processedRows s + length (fetching s)"
    using d(4) st(2,5) by simp
  moreover have "successfulRows s' + errorRows s' + length (fetching s')
        = successfulRows s + errorRows s + length (fetching s)"
    using d(5) st(2,6,7) by simp
  ultimately show ?thesis
    unfolding Let_def s'_def by blast
qed

text \<open>
  Claim C4 at a failing input. A run of two rows is stopped while the fetch of row 0 is
  pending. At the stop no job is \<open>Completed\<close> or \<open>Error\<close>, the counters are 0, and
  the job of row 0 is reset to \<open>Pending\<close>. \<open>stopAnalysis\<close> announces "Cancel active
  requests" and \<open>cancelAllRequests\<close> "Cancelled N active requests", but the registry
  of the client is all that is cleared: the fetch is not aborted. When it settles
  afterwards, \<open>processRow\<close> goes on, the job that the stop had reset becomes
  \<open>Completed\<close> (or \<open>Error\<close>), and the counters advance.
\<close>

theorem fetch_settles_after_stop:
  "isProcessing engine_first_in_flight
   \<and> engine_stopped_in_flight = stopAnalysis engine_first_in_flight
   \<and> count_status Completed engine_stopped_in_flight = 0
   \<and> count_status Error engine_stopped_in_flight = 0
   \<and> processedRows engine_stopped_in_flight = 0
   \<and> status (uploadedData engine_stopped_in_flight ! 0) = Pending
   \<and> (let s' = step engine_stopped_in_flight (FetchSettled 1 (Inr result_ynn)) in
        status (uploadedData s' ! 0) = Completed
        \<and> processedRows s' = 1 \<and> successfulRows s' = 1 \<and> errorRows s' = 0)
   \<and> (let s' = step engine_stopped_in_flight (FetchSettled 1 (Inl network_failure)) in
        status (uploadedData s' ! 0) = Error
        \<and> processedRows s' = 1 \<and> successfulRows s' = 0 \<and> errorRows s' = 1)"
  by code_simp

lemma after_stop_events: "list_all (\<lambda>e. \<not> starts_run e)
     [FetchSettled 1 (Inr result_ynn), TimerFired 1, WorkersDone 0, ClickAnalyzeAll]"
  by simp

lemma engine_first_in_flight_facts:
  "isProcessing engine_first_in_flight"
  "fetching engine_first_in_flight = [0]"
  "processedRows engine_first_in_flight = 0"
  "successfulRows engine_first_in_flight = 0"
  "errorRows engine_first_in_flight = 0"
  "length (uploadedData engine_first_in_flight) = 2"
  "status (uploadedData engine_first_in_flight ! 1) = Pending"
  by (simp_all add: engine_first_in_flight_state fetching_def fresh_row_def)

lemma after_stop_fetching:
  "fetching (run (stopAnalysis engine_first_in_flight)
      [FetchSettled 1 (Inr result_ynn), TimerFired 1, WorkersDone 0, ClickAnalyzeAll]) = []"
  by code_simp

theorem stop_keeps_pending_jobs_and_lets_fetches_settle_witness:
  "isProcessing engine_first_in_flight
   \<and> list_all (\<lambda>e. \<not> starts_run e)
       [FetchSettled 1 (Inr result_ynn), TimerFired 1, WorkersDone 0, ClickAnalyzeAll]
   \<and> (let s' = run (stopAnalysis engine_first_in_flight)
                  [FetchSettled 1 (Inr result_ynn), TimerFired 1, WorkersDone 0, ClickAnalyzeAll] in
        processingQueue s' = [] \<and> isStopped s'
        \<and> status (uploadedData s' ! 1) = Pending
        \<and> processedRows s' = 1
        \<and> successfulRows s' + errorRows s' = 1)"
proof -
  define s' where "s' = run (stopAnalysis engine_first_in_flight)
      [FetchSettled 1 (Inr result_ynn), TimerFired 1, WorkersDone 0, ClickAnalyzeAll]"
  note f = engine_first_in_flight_facts
  from stop_keeps_pending_jobs_and_lets_fetches_settle[OF f(1) after_stop_events]
  have q: "processingQueue s' = [] \<and> isStopped s'"
    and p: "list_all (\<lambda>r. r \<in> set (fetching engine_first_in_flight)
                   \<or> status (uploadedData engine_first_in_flight ! r) \<noteq> Pending
                   \<or> status (uploadedData s' ! r) = Pending)
         [0 ..< length (uploadedData engine_first_in_flight)]"
    and c1: "processedRows s' + length (fetching s')
        = processedRows engine_first_in_flight + length (fetching engine_first_in_flight)"
    and c2: "successfulRows s' + errorRows s' + length (fetching s')
        = successfulRows engine_first_in_flight + errorRows engine_first_in_flight
          + length (fetching engine_first_in_flight)"
    unfolding Let_def s'_def[symmetric] by simp_all
  have fs: "fetching s' = []"
    unfolding s'_def by (rule after_stop_fetching)
  from p f(7) have "status (uploadedData s' ! 1) = Pending"
    unfolding f(2,6) by (simp add: upt_rec)
  with q c1 c2 show ?thesis
    unfolding Let_def s'_def[symmetric] fs f(2,3,4,5)
    using f(1) after_stop_events by simp
qed


subsection \<open>Runs that overlap, and jobs analysed twice\<close>

text \<open>
  Claim C5 at a failing input. The analysis of row 0 is stopped while its fetch is
  pending, and rows 1 to 5 are analysed: the new run starts three workers on rows 1, 2
  and 3. \<open>startAnalysis\<close> has reset the stop flag, so the worker of the stopped run,
  once its fetch has settled, finds the new queue and takes row 4: four jobs are
  \<open>Processing\<close> while \<open>maxConcurrentRequests\<close> is 3.
\<close>

theorem restart_after_stop_exceeds_the_bound:
  "maxConcurrentRequests (run (new_AnalysisEngine six_rows) restart_after_stop) = 3
   \<and> count_status Processing (run (new_AnalysisEngine six_rows) restart_after_stop) = 4
   \<and> map status (uploadedData (run (new_AnalysisEngine six_rows) restart_after_stop)) =
       [Completed, Processing, Processing, Processing, Processing, Pending]"
  by code_simp

text \<open>
  What holds of \<open>processWithConcurrency\<close>: it starts at most
  \<open>min(maxConcurrentRequests, queue length)\<close> workers.
\<close>

lemma launch_bound:
  "length (snd (launch m s i ws)) \<le> length ws + (min m (length (processingQueue s)) - i)"
proof (induction m s i ws rule: launch.induct)
  case (1 m s i ws)
  show ?case
  proof (cases "i < min m (length (processingQueue s))")
    case True
    define s1 where "s1 = worker_loop_head (s\<lparr> tasks := tasks s @ [Finished] \<rparr>) (length (tasks s))"
    have q: "length (processingQueue s1) \<le> length (processingQueue s)"
      unfolding s1_def
      by (auto simp: worker_loop_head_def worker_pause_loop_def worker_dispatch_def set_task_def
          processRow_begin_def processRow_finally_def processRow_catch_def update_row_def Let_def
          split: list.splits option.splits)
    have ih: "length (snd (launch m s1 (i + 1) (ws @ [length (tasks s)])))
        \<le> length (ws @ [length (tasks s)]) + (min m (length (processingQueue s1)) - (i + 1))"
      unfolding s1_def by (rule "1.IH"[OF True refl])
    have unfold: "launch m s i ws = launch m s1 (i + 1) (ws @ [length (tasks s)])"
      unfolding s1_def by (subst launch.simps, subst if_P[OF True]) (simp add: Let_def)
    from ih q True show ?thesis
      unfolding unfold by (simp add: min_def split: if_splits)
  next
    case False
    show ?thesis
      by (subst launch.simps, subst if_not_P[OF False]) simp
  qed
qed

lemma processWithConcurrency_starts_at_most:
  "length (snd (launch m s 0 [])) \<le> min m (length (processingQueue s))"
  using launch_bound[of m s 0 "[]"] by simp

text \<open>
  Claim C7 as stated fails: the only row fails in a first run and is analysed again. While
  its second fetch is pending the job is \<open>Processing\<close> with its error message still set.
\<close>

theorem error_message_survives_second_analysis:
  "status (uploadedData (run (new_AnalysisEngine one_row) analyse_again_after_error) ! 0) = Processing
   \<and> errorMessage (uploadedData (run (new_AnalysisEngine one_row) analyse_again_after_error) ! 0)
       = Some NETWORK_ERROR
   \<and> \<not> claimed_job_invariant
         (uploadedData (run (new_AnalysisEngine one_row) analyse_again_after_error) ! 0)"
  by code_simp

lemma one_row_consistent: "list_all job_consistent (uploadedData (new_AnalysisEngine one_row))"
  by code_simp

lemma analyse_again_labelled:
  "list_all labelled_event (analyse_again_after_error @ [FetchSettled 3 (Inr result_ynn)])"
  by code_simp

subsection \<open>A single run on pristine rows\<close>

lemma fetching_split:
  assumes "i < length (tasks s)"
  shows "fetching s =
      concat (map fetching_row (take i (tasks s))) @ fetching_row (tasks s ! i)
        @ concat (map fetching_row (drop (Suc i) (tasks s)))"
    and "fetching (s'\<lparr> tasks := (tasks s)[i := t] \<rparr>) =
      concat (map fetching_row (take i (tasks s))) @ fetching_row t
        @ concat (map fetching_row (drop (Suc i) (tasks s)))"
proof -
  have "tasks s = take i (tasks s) @ tasks s ! i # drop (Suc i) (tasks s)"
    using assms by (rule id_take_nth_drop)
  then have "fetching s = concat (map fetching_row (take i (tasks s) @ tasks s ! i # drop (Suc i) (tasks s)))"
    unfolding fetching_def by simp
  then show "fetching s =
      concat (map fetching_row (take i (tasks s))) @ fetching_row (tasks s ! i)
        @ concat (map fetching_row (drop (Suc i) (tasks s)))"
    by simp
  have "(tasks s)[i := t] = take i (tasks s) @ t # drop (Suc i) (tasks s)"
    using assms by (rule upd_conv_take_nth_drop)
  then show "fetching (s'\<lparr> tasks := (tasks s)[i := t] \<rparr>) =
      concat (map fetching_row (take i (tasks s))) @ fetching_row t
        @ concat (map fetching_row (drop (Suc i) (tasks s)))"
    unfolding fetching_def by simp
qed

lemma fetching_same:
  assumes "fetching_row (task_at s i) = []" and "fetching_row t = []"
  shows "fetching (s'\<lparr> tasks := (tasks s)[i := t] \<rparr>) = fetching s"
proof (cases "i < length (tasks s)")
  case True
  with assms fetching_split(1)[OF True] fetching_split(2)[OF True, where s' = s' and t = t]
  show ?thesis
    by (simp add: task_at_def)
next
  case False
  then have "(tasks s)[i := t] = tasks s"
    by (intro list_update_beyond) (simp add: not_less)
  then show ?thesis by (simp add: fetching_def)
qed

lemma alive_update:
  "i < length ts \<Longrightarrow>
   length (filter alive (ts[i := t])) + (if alive (ts ! i) then 1 else 0)
     = length (filter alive ts) + (if alive t then 1 else 0)"
proof (induction ts arbitrary: i)
  case Nil
  then show ?case by simp
next
  case (Cons a ts)
  then show ?case by (cases i) auto
qed

lemma single_runI:
  assumes "\<And>r. r \<in> set (processingQueue s) \<Longrightarrow>
             r < length (uploadedData s) \<and> pristine (uploadedData s ! r)"
      and "\<And>r. r \<in> set (fetching s) \<Longrightarrow>
             r < length (uploadedData s) \<and> in_flight_row (uploadedData s ! r)"
      and "distinct (processingQueue s @ fetching s)"
      and "\<And>r. r < length (uploadedData s) \<Longrightarrow> status (uploadedData s ! r) = Processing \<Longrightarrow>
             r \<in> set (fetching s)"
      and "\<And>r. r < length (uploadedData s) \<Longrightarrow> claimed_job_invariant (uploadedData s ! r)"
  shows "single_run s"
  unfolding single_run_def list_all_iff
proof (intro conjI ballI)
  fix row assume "row \<in> set (uploadedData s)"
  then obtain r where "r < length (uploadedData s)" "row = uploadedData s ! r"
    by (auto simp: in_set_conv_nth)
  with assms(5) show "claimed_job_invariant row" by simp
qed (use assms in auto)

lemma single_runD:
  assumes "single_run s"
  shows "\<And>r. r \<in> set (processingQueue s) \<Longrightarrow>
             r < length (uploadedData s) \<and> pristine (uploadedData s ! r)"
    and "\<And>r. r \<in> set (fetching s) \<Longrightarrow>
             r < length (uploadedData s) \<and> in_flight_row (uploadedData s ! r)"
    and "distinct (processingQueue s @ fetching s)"
    and "\<And>r. r < length (uploadedData s) \<Longrightarrow> status (uploadedData s ! r) = Processing \<Longrightarrow>
             r \<in> set (fetching s)"
    and "\<And>r. r < length (uploadedData s) \<Longrightarrow> claimed_job_invariant (uploadedData s ! r)"
  using assms unfolding single_run_def list_all_iff by auto

lemma single_run_cong:
  assumes "processingQueue s' = processingQueue s" and "fetching s' = fetching s"
      and "uploadedData s' = uploadedData s"
  shows "single_run s' = single_run s"
  by (simp add: single_run_def assms)

text \<open>
  One row \<open>r\<close> is rewritten, it leaves the queue if it was there, and the pending
  fetches change at most by \<open>r\<close>.
\<close>

lemma single_run_row_written:
  assumes inv: "single_run s"
      and r: "r < length (uploadedData s)"
      and rows: "uploadedData s' = (uploadedData s)[r := row']"
      and queue: "set (processingQueue s') \<subseteq> set (processingQueue s) - {r}"
      and dist: "distinct (processingQueue s' @ fetching s')"
      and more: "set (fetching s') \<subseteq> insert r (set (fetching s))"
      and less: "set (fetching s) - {r} \<subseteq> set (fetching s')"
      and claimed: "claimed_job_invariant row'"
      and flight: "r \<in> set (fetching s') \<Longrightarrow> in_flight_row row'"
      and processing: "status row' = Processing \<Longrightarrow> r \<in> set (fetching s')"
  shows "single_run s'"
proof (rule single_runI)
  note d = single_runD[OF inv]
  have len: "length (uploadedData s') = length (uploadedData s)"
    by (simp add: rows)
  have at_r: "uploadedData s' ! r = row'"
    using r by (simp add: rows)
  have other: "uploadedData s' ! q = uploadedData s ! q" if "q \<noteq> r" for q
    using that by (simp add: rows)
  show "q < length (uploadedData s') \<and> pristine (uploadedData s' ! q)"
    if "q \<in> set (processingQueue s')" for q
  proof -
    from that queue have "q \<in> set (processingQueue s)" "q \<noteq> r" by auto
    with d(1)[of q] other[of q] len show ?thesis by simp
  qed
  show "q < length (uploadedData s') \<and> in_flight_row (uploadedData s' ! q)"
    if "q \<in> set (fetching s')" for q
  proof (cases "q = r")
    case True
    with that flight at_r r len show ?thesis by simp
  next
    case False
    with that more have "q \<in> set (fetching s)" by auto
    with d(2)[of q] other[OF False] len show ?thesis by simp
  qed
  show "distinct (processingQueue s' @ fetching s')" by (rule dist)
  show "q \<in> set (fetching s')"
    if "q < length (uploadedData s')" "status (uploadedData s' ! q) = Processing" for q
  proof (cases "q = r")
    case True
    with that at_r processing show ?thesis by simp
  next
    case False
    with that other[OF False] len d(4)[of q] have "q \<in> set (fetching s)" by simp
    with False less show ?thesis by auto
  qed
  show "claimed_job_invariant (uploadedData s' ! q)" if "q < length (uploadedData s')" for q
  proof (cases "q = r")
    case True
    with at_r claimed show ?thesis by simp
  next
    case False
    with that other[OF False] len d(5)[of q] show ?thesis by simp
  qed
qed

lemma single_run_stopAnalysis:
  assumes "single_run s"
  shows "single_run (stopAnalysis s)"
proof (cases "isProcessing s")
  case False
  with assms show ?thesis by (simp add: stopAnalysis_def)
next
  case True
  note d = single_runD[OF assms]
  let ?f = "\<lambda>row. if status row = Processing then row\<lparr> status := Pending \<rparr> else row"
  have rows: "uploadedData (stopAnalysis s) = map ?f (uploadedData s)"
    and queue: "processingQueue (stopAnalysis s) = []"
    and fetch: "fetching (stopAnalysis s) = fetching s"
    using True by (simp_all add: stopAnalysis_def fetching_def)
  show ?thesis
  proof (rule single_runI)
    show "q < length (uploadedData (stopAnalysis s)) \<and> pristine (uploadedData (stopAnalysis s) ! q)"
      if "q \<in> set (processingQueue (stopAnalysis s))" for q
      using that by (simp add: queue)
    show "q < length (uploadedData (stopAnalysis s)) \<and> in_flight_row (uploadedData (stopAnalysis s) ! q)"
      if "q \<in> set (fetching (stopAnalysis s))" for q
      using that d(2)[of q] by (auto simp: fetch rows in_flight_row_def classified_def)
    show "distinct (processingQueue (stopAnalysis s) @ fetching (stopAnalysis s))"
      using d(3) by (simp add: queue fetch)
    show "q \<in> set (fetching (stopAnalysis s))"
      if "q < length (uploadedData (stopAnalysis s))"
         "status (uploadedData (stopAnalysis s) ! q) = Processing" for q
      using that by (simp add: rows split: if_splits)
    show "claimed_job_invariant (uploadedData (stopAnalysis s) ! q)"
      if "q < length (uploadedData (stopAnalysis s))" for q
      using that d(5)[of q] by (auto simp: rows claimed_job_invariant_def classified_def)
  qed
qed

text \<open>\<open>processRow\<close> called on a pending row.\<close>

lemma processRow_begin_pending:
  assumes "r < length (uploadedData s)" and "status (uploadedData s ! r) = Pending"
  obtains row' where
    "uploadedData (fst (processRow_begin s r)) = (uploadedData s)[r := row']"
    "tasks (fst (processRow_begin s r)) = tasks s"
    "processingQueue (fst (processRow_begin s r)) = processingQueue s"
    "(snd (processRow_begin s r) = AwaitRow \<and> status row' = Error \<and> errorMessage row' \<noteq> None
        \<and> classified row' = classified (uploadedData s ! r))
     \<or> (fetching_row (snd (processRow_begin s r)) = [r]
        \<and> row' = (uploadedData s ! r)\<lparr> status := Processing \<rparr>)"
proof (cases "row_url (uploadedData s ! r)")
  case None
  show ?thesis
    by (rule that[of "(uploadedData s ! r)\<lparr> status := Error,
          errorMessage := Some ''No URL found in row'',
          analysisResult := ''Error: No URL found in row'' \<rparr>"])
       (use assms None in \<open>simp_all add: processRow_begin_def Let_def update_row_def
          processRow_catch_def processRow_finally_def classified_def\<close>)
next
  case (Some u)
  show ?thesis
    by (rule that[of "(uploadedData s ! r)\<lparr> status := Processing \<rparr>"])
       (use assms Some in \<open>simp_all add: processRow_begin_def Let_def update_row_def\<close>)
qed

lemma single_run_set_task:
  assumes "fetching_row (task_at s i) = []" and "fetching_row t = []"
  shows "single_run (set_task s i t) = single_run s"
  unfolding set_task_def
  by (rule single_run_cong) (simp_all add: fetching_same[OF assms])

text \<open>A worker that is not waiting for a fetch takes the next row, if it may.\<close>

lemma single_run_worker_dispatch:
  assumes inv: "single_run s" and i: "i < length (tasks s)"
      and idle: "fetching_row (tasks s ! i) = []"
  shows "single_run (worker_dispatch s i)"
proof -
  from i idle have idle': "fetching_row (task_at s i) = []"
    by (simp add: task_at_def)
  note d = single_runD[OF inv]
  show ?thesis
  proof (cases "isStopped s \<or> processingQueue s = []")
    case True
    then have "worker_dispatch s i = set_task s i Finished"
      by (auto simp: worker_dispatch_def split: list.splits)
    with inv idle' show ?thesis
      by (simp add: single_run_set_task)
  next
    case False
    then obtain r rest where q: "processingQueue s = r # rest" and ns: "\<not> isStopped s"
      by (cases "processingQueue s") auto
    define s0 where "s0 = s\<lparr> processingQueue := rest \<rparr>"
    define s1 where "s1 = fst (processRow_begin s0 r)"
    define t where "t = snd (processRow_begin s0 r)"
    define s' where "s' = set_task s1 i t"
    have result: "worker_dispatch s i = s'"
      using q ns by (simp add: worker_dispatch_def s'_def s1_def t_def s0_def case_prod_beta)
    from d(1)[of r] q have r: "r < length (uploadedData s)" and pr: "pristine (uploadedData s ! r)"
      by simp_all
    from d(3) q have r_new: "r \<notin> set rest" "r \<notin> set (fetching s)"
      and dist: "distinct (rest @ fetching s)"
      by simp_all
    have r0: "r < length (uploadedData s0)" "status (uploadedData s0 ! r) = Pending"
      using r pr by (simp_all add: s0_def pristine_def)
    from processRow_begin_pending[OF r0]
    obtain row' where
      rows1: "uploadedData s1 = (uploadedData s)[r := row']" and
      tasks1: "tasks s1 = tasks s" and
      queue1: "processingQueue s1 = rest" and
      kind: "(t = AwaitRow \<and> status row' = Error \<and> errorMessage row' \<noteq> None
                \<and> classified row' = classified (uploadedData s ! r))
             \<or> (fetching_row t = [r] \<and> row' = (uploadedData s ! r)\<lparr> status := Processing \<rparr>)"
      unfolding s1_def t_def by (auto simp: s0_def)
    have rows': "uploadedData s' = (uploadedData s)[r := row']"
      and queue': "processingQueue s' = rest"
      by (simp_all add: s'_def set_task_def rows1 queue1)
    let ?A = "concat (map fetching_row (take i (tasks s)))"
    let ?B = "concat (map fetching_row (drop (Suc i) (tasks s)))"
    have f_old: "fetching s = ?A @ ?B"
      using fetching_split(1)[OF i] idle by simp
    have f_new: "fetching s' = ?A @ fetching_row t @ ?B"
      unfolding s'_def set_task_def tasks1 by (rule fetching_split(2)[OF i])
    have "single_run s'"
    proof (rule single_run_row_written[OF inv r rows'])
      show "set (processingQueue s') \<subseteq> set (processingQueue s) - {r}"
        using r_new(1) by (auto simp: queue' q)
      from kind show "distinct (processingQueue s' @ fetching s')"
        using dist r_new by (auto simp: queue' f_new f_old)
      from kind show "set (fetching s') \<subseteq> insert r (set (fetching s))"
        by (auto simp: f_new f_old)
      show "set (fetching s) - {r} \<subseteq> set (fetching s')"
        by (auto simp: f_new f_old)
      from kind pr show "claimed_job_invariant row'"
        by (auto simp: claimed_job_invariant_def pristine_def classified_def)
      from kind pr r_new(2) show "in_flight_row row'" if "r \<in> set (fetching s')"
        using that by (auto simp: f_new f_old in_flight_row_def pristine_def classified_def)
      from kind show "r \<in> set (fetching s')" if "status row' = Processing"
        using that by (auto simp: f_new)
    qed
    then show ?thesis by (simp add: result)
  qed
qed

lemma single_run_worker_steps:
  assumes "single_run s" and "i < length (tasks s)" and "fetching_row (tasks s ! i) = []"
  shows "single_run (worker_pause_loop s i)"
    and "single_run (worker_loop_head s i)"
    and "single_run (worker_after_row s i)"
proof -
  from assms(2,3) have idle: "fetching_row (task_at s i) = []"
    by (simp add: task_at_def)
  note dispatch = single_run_worker_dispatch[OF assms]
  show p: "single_run (worker_pause_loop s i)"
    using dispatch assms(1) idle by (simp add: worker_pause_loop_def single_run_set_task)
  show l: "single_run (worker_loop_head s i)"
    using p assms(1) idle by (simp add: worker_loop_head_def single_run_set_task)
  show "single_run (worker_after_row s i)"
    using l assms(1) idle by (simp add: worker_after_row_def single_run_set_task)
qed

text \<open>A pending fetch settles.\<close>

lemma single_run_fetch_settled:
  assumes inv: "single_run s" and t: "task_at s i = AwaitFetch r rowId"
      and lab: "labelled_event (FetchSettled i outcome)"
  shows "single_run (set_task (processRow_resume s r rowId outcome) i AwaitRow)"
proof -
  note d = single_runD[OF inv]
  have i: "i < length (tasks s)" and ti: "tasks s ! i = AwaitFetch r rowId"
    using t by (simp_all add: task_at_def split: if_splits)
  let ?A = "concat (map fetching_row (take i (tasks s)))"
  let ?B = "concat (map fetching_row (drop (Suc i) (tasks s)))"
  have f_old: "fetching s = ?A @ [r] @ ?B"
    using fetching_split(1)[OF i] ti by simp
  then have r_in: "r \<in> set (fetching s)" by simp
  from d(2)[OF r_in] have r: "r < length (uploadedData s)"
    and fl: "in_flight_row (uploadedData s ! r)" by simp_all
  define s1 where "s1 = processRow_resume s r rowId outcome"
  define s' where "s' = set_task s1 i AwaitRow"
  define row' where "row' = uploadedData s1 ! r"
  have tasks1: "tasks s1 = tasks s" and queue1: "processingQueue s1 = processingQueue s"
    and rows1: "uploadedData s1 = (uploadedData s)[r := row']"
    unfolding s1_def row'_def using r
    by (cases outcome;
        simp add: processRow_resume_def processRow_finally_def processRow_then_def
          processRow_catch_def update_row_def)+
  have row': "(status row' = Completed \<and> classified row' \<and> errorMessage row' = None)
      \<or> (status row' = Error \<and> \<not> classified row' \<and> errorMessage row' \<noteq> None)"
  proof (cases outcome)
    case (Inl err)
    with r fl show ?thesis
      unfolding row'_def s1_def
      by (simp add: processRow_resume_def processRow_finally_def processRow_catch_def
          update_row_def in_flight_row_def classified_def)
  next
    case (Inr res)
    with lab have "labelled_result res" by simp
    with Inr r fl show ?thesis
      unfolding row'_def s1_def
      by (simp add: processRow_resume_def processRow_finally_def processRow_then_def
          update_row_def in_flight_row_def classified_def labelled_result_def)
  qed
  have rows': "uploadedData s' = (uploadedData s)[r := row']"
    and queue': "processingQueue s' = processingQueue s"
    by (simp_all add: s'_def set_task_def rows1 queue1)
  have f_new: "fetching s' = ?A @ ?B"
    unfolding s'_def set_task_def tasks1 using fetching_split(2)[OF i, where s' = s1 and t = AwaitRow] by simp
  from d(3) have dist: "distinct (processingQueue s @ ?A @ ?B)" and r_out: "r \<notin> set (?A @ ?B)"
    and r_queue: "r \<notin> set (processingQueue s)"
    unfolding f_old by auto
  have "single_run s'"
  proof (rule single_run_row_written[OF inv r rows'])
    show "set (processingQueue s') \<subseteq> set (processingQueue s) - {r}"
      using r_queue by (auto simp: queue')
    show "distinct (processingQueue s' @ fetching s')"
      using dist by (simp add: queue' f_new)
    show "set (fetching s') \<subseteq> insert r (set (fetching s))"
      by (auto simp: f_new f_old)
    show "set (fetching s) - {r} \<subseteq> set (fetching s')"
      by (auto simp: f_new f_old)
    from row' show "claimed_job_invariant row'"
      by (auto simp: claimed_job_invariant_def)
    show "in_flight_row row'" if "r \<in> set (fetching s')"
      using that r_out by (simp add: f_new)
    from row' show "r \<in> set (fetching s')" if "status row' = Processing"
      using that by auto
  qed
  then show ?thesis by (simp add: s'_def s1_def)
qed

text \<open>What a worker's step does to the list of activations and to the limit.\<close>

lemma worker_dispatch_tasks:
  "\<exists>t. tasks (worker_dispatch s i) = (tasks s)[i := t]"
  by (auto simp: worker_dispatch_def set_task_def processRow_begin_def Let_def update_row_def
      processRow_catch_def processRow_finally_def split: list.splits option.splits)

lemma worker_steps_tasks:
  "\<exists>t. tasks (worker_pause_loop s i) = (tasks s)[i := t]"
  "\<exists>t. tasks (worker_loop_head s i) = (tasks s)[i := t]"
  "\<exists>t. tasks (worker_after_row s i) = (tasks s)[i := t]"
  using worker_dispatch_tasks[of s i]
  by (auto simp: worker_pause_loop_def worker_loop_head_def worker_after_row_def set_task_def)

lemma worker_dispatch_limit:
  "maxConcurrentRequests (worker_dispatch s i) = maxConcurrentRequests s"
  by (auto simp: worker_dispatch_def set_task_def processRow_begin_def Let_def update_row_def
      processRow_catch_def processRow_finally_def split: list.splits option.splits)

lemma worker_steps_limit:
  "maxConcurrentRequests (worker_pause_loop s i) = maxConcurrentRequests s"
  "maxConcurrentRequests (worker_loop_head s i) = maxConcurrentRequests s"
  "maxConcurrentRequests (worker_after_row s i) = maxConcurrentRequests s"
  by (simp_all add: worker_pause_loop_def worker_loop_head_def worker_after_row_def set_task_def
      worker_dispatch_limit)

lemma workers_alive_resumed:
  assumes "tasks s' = (tasks s)[i := t]" and "alive (task_at s i)"
  shows "workers_alive s' \<le> workers_alive s"
proof -
  from assms(2) have i: "i < length (tasks s)" and a: "alive (tasks s ! i)"
    by (simp_all add: task_at_def split: if_splits)
  from alive_update[OF i, of t] a show ?thesis
    by (simp add: workers_alive_def assms(1) split: if_splits)
qed

lemma workers_alive_set_task:
  assumes "\<not> alive t"
  shows "workers_alive (set_task s i t) \<le> workers_alive s"
proof (cases "i < length (tasks s)")
  case True
  from alive_update[OF True, of t] assms show ?thesis
    by (simp add: workers_alive_def set_task_def split: if_splits)
next
  case False
  then have "(tasks s)[i := t] = tasks s"
    by (intro list_update_beyond) (simp add: not_less)
  then show ?thesis by (simp add: workers_alive_def set_task_def)
qed

lemma processRow_resume_frame:
  "tasks (processRow_resume s r rowId outcome) = tasks s"
  "maxConcurrentRequests (processRow_resume s r rowId outcome) = maxConcurrentRequests s"
  by (cases outcome;
      simp add: processRow_resume_def processRow_finally_def processRow_then_def
        processRow_catch_def update_row_def)+

text \<open>\<open>processWithConcurrency\<close>: what the launch of the workers preserves.\<close>

lemma launch_invariant:
  assumes "P s"
      and "\<And>s. P s \<Longrightarrow> P (worker_loop_head (s\<lparr> tasks := tasks s @ [Finished] \<rparr>) (length (tasks s)))"
  shows "P (fst (launch m s i ws))"
  using assms(1)
proof (induction m s i ws rule: launch.induct)
  case (1 m s i ws)
  show ?case
  proof (cases "i < min m (length (processingQueue s))")
    case True
    define s1 where "s1 = worker_loop_head (s\<lparr> tasks := tasks s @ [Finished] \<rparr>) (length (tasks s))"
    have "P s1" unfolding s1_def using "1.prems" by (rule assms(2))
    then have ih: "P (fst (launch m s1 (i + 1) (ws @ [length (tasks s)])))"
      unfolding s1_def by (rule "1.IH"[OF True refl])
    have unfold: "launch m s i ws = launch m s1 (i + 1) (ws @ [length (tasks s)])"
      unfolding s1_def by (subst launch.simps, subst if_P[OF True]) (simp add: Let_def)
    from ih show ?thesis unfolding unfold .
  next
    case False
    have "launch m s i ws = (s, ws)"
      by (subst launch.simps, subst if_not_P[OF False]) simp
    with "1.prems" show ?thesis by simp
  qed
qed

lemma new_worker_tasks:
  "\<exists>t. tasks (worker_loop_head (s\<lparr> tasks := tasks s @ [Finished] \<rparr>) (length (tasks s))) = tasks s @ [t]"
proof -
  from worker_steps_tasks(2)[of "s\<lparr> tasks := tasks s @ [Finished] \<rparr>" "length (tasks s)"]
  obtain t where "tasks (worker_loop_head (s\<lparr> tasks := tasks s @ [Finished] \<rparr>) (length (tasks s)))
      = (tasks s @ [Finished])[length (tasks s) := t]"
    by auto
  then show ?thesis by simp
qed

lemma launch_single_run:
  assumes "single_run s"
  shows "single_run (fst (launch m s i ws))"
proof (rule launch_invariant[where P = single_run, OF assms])
  fix s assume inv: "single_run s"
  have "single_run (s\<lparr> tasks := tasks s @ [Finished] \<rparr>) = single_run s"
    by (rule single_run_cong) (simp_all add: fetching_def)
  with inv have "single_run (s\<lparr> tasks := tasks s @ [Finished] \<rparr>)" by simp
  then show "single_run (worker_loop_head (s\<lparr> tasks := tasks s @ [Finished] \<rparr>) (length (tasks s)))"
    by (rule single_run_worker_steps(2)) simp_all
qed

lemma launch_limit:
  "maxConcurrentRequests (fst (launch m s i ws)) = maxConcurrentRequests s"
  by (rule launch_invariant[where P = "\<lambda>s' :: engine. maxConcurrentRequests s' = maxConcurrentRequests s"])
     (simp_all add: worker_steps_limit)

lemma launch_keeps_tasks:
  "length (tasks s) \<le> length (tasks (fst (launch m s i ws)))
   \<and> take (length (tasks s)) (tasks (fst (launch m s i ws))) = tasks s"
proof (rule launch_invariant[where P = "\<lambda>s' :: engine. length (tasks s) \<le> length (tasks s')
      \<and> take (length (tasks s)) (tasks s') = tasks s"])
  show "length (tasks s) \<le> length (tasks s) \<and> take (length (tasks s)) (tasks s) = tasks s"
    by simp
next
  fix s' :: engine assume p: "length (tasks s) \<le> length (tasks s') \<and> take (length (tasks s)) (tasks s') = tasks s"
  obtain t where "tasks (worker_loop_head (s'\<lparr> tasks := tasks s' @ [Finished] \<rparr>) (length (tasks s')))
      = tasks s' @ [t]"
    using new_worker_tasks[of s'] by auto
  with p show "length (tasks s)
        \<le> length (tasks (worker_loop_head (s'\<lparr> tasks := tasks s' @ [Finished] \<rparr>) (length (tasks s'))))
      \<and> take (length (tasks s))
          (tasks (worker_loop_head (s'\<lparr> tasks := tasks s' @ [Finished] \<rparr>) (length (tasks s')))) = tasks s"
    by simp
qed

lemma launch_task_at:
  assumes "i < length (tasks s)"
  shows "task_at (fst (launch m s k ws)) i = task_at s i"
proof -
  from launch_keeps_tasks[of s m k ws]
  have l: "length (tasks s) \<le> length (tasks (fst (launch m s k ws)))"
    and t: "take (length (tasks s)) (tasks (fst (launch m s k ws))) = tasks s"
    by simp_all
  have "tasks (fst (launch m s k ws)) ! i = take (length (tasks s)) (tasks (fst (launch m s k ws))) ! i"
    using assms by simp
  with t have "tasks (fst (launch m s k ws)) ! i = tasks s ! i" by simp
  with l assms show ?thesis by (simp add: task_at_def)
qed

lemma launch_workers_alive:
  "workers_alive (fst (launch m s i ws)) \<le> workers_alive s + (m - i)"
proof (induction m s i ws rule: launch.induct)
  case (1 m s i ws)
  show ?case
  proof (cases "i < min m (length (processingQueue s))")
    case True
    define s1 where "s1 = worker_loop_head (s\<lparr> tasks := tasks s @ [Finished] \<rparr>) (length (tasks s))"
    obtain t where "tasks s1 = tasks s @ [t]"
      unfolding s1_def using new_worker_tasks[of s] by auto
    then have a: "workers_alive s1 \<le> workers_alive s + 1"
      by (simp add: workers_alive_def)
    have ih: "workers_alive (fst (launch m s1 (i + 1) (ws @ [length (tasks s)])))
        \<le> workers_alive s1 + (m - (i + 1))"
      unfolding s1_def by (rule "1.IH"[OF True refl])
    have unfold: "launch m s i ws = launch m s1 (i + 1) (ws @ [length (tasks s)])"
      unfolding s1_def by (subst launch.simps, subst if_P[OF True]) (simp add: Let_def)
    from ih a True show ?thesis unfolding unfold by simp
  next
    case False
    have "launch m s i ws = (s, ws)"
      by (subst launch.simps, subst if_not_P[OF False]) simp
    then show ?thesis by simp
  qed
qed

text \<open>Pending fetches belong to live workers, and \<open>Processing\<close> rows to pending fetches.\<close>

lemma fetching_le_alive: "length (fetching s) \<le> workers_alive s"
proof -
  have "length (concat (map fetching_row ts)) \<le> length (filter alive ts)" for ts
  proof (induction ts)
    case Nil
    show ?case by simp
  next
    case (Cons t ts)
    then show ?case by (cases t) simp_all
  qed
  then show ?thesis by (simp add: fetching_def workers_alive_def)
qed

lemma single_run_processing_bound:
  assumes "single_run s"
  shows "count_status Processing s \<le> workers_alive s"
proof -
  note d = single_runD[OF assms]
  have "count_status Processing s
      = card {r. r < length (uploadedData s) \<and> status (uploadedData s ! r) = Processing}"
    by (simp add: count_status_def length_filter_conv_card)
  also have "\<dots> \<le> card (set (fetching s))"
    by (rule card_mono) (use d(4) in auto)
  also have "\<dots> \<le> length (fetching s)" by (rule card_length)
  also have "\<dots> \<le> workers_alive s" by (rule fetching_le_alive)
  finally show ?thesis .
qed

text \<open>Before the run: nothing but suspended calls of \<open>startAnalysis\<close>.\<close>

lemma not_alive_task_at:
  assumes "workers_alive s = 0"
  shows "\<not> alive (task_at s i)"
proof (cases "i < length (tasks s)")
  case True
  from assms have "\<forall>t \<in> set (tasks s). \<not> alive t"
    by (simp add: workers_alive_def filter_empty_conv)
  with True show ?thesis by (simp add: task_at_def)
next
  case False
  then show ?thesis by (simp add: task_at_def)
qed

lemma batches_set_task:
  assumes "batches_well_formed s" and "batch_of t = []"
  shows "batches_well_formed (set_task s i t)"
  using assms set_update_subset_insert[of "tasks s" i t]
  unfolding batches_well_formed_def set_task_def list_all_iff by auto

lemma waiting_set_task:
  assumes "waiting s" and "batch_of t = []" and "\<not> alive t"
  shows "waiting (set_task s i t)"
proof -
  from assms(1) have "workers_alive s = 0" by (simp add: waiting_def)
  with workers_alive_set_task[OF assms(3), of s i] have "workers_alive (set_task s i t) = 0"
    by simp
  moreover have "batches_well_formed (set_task s i t)"
    using assms(1,2) by (simp add: waiting_def batches_set_task)
  moreover have "\<not> isProcessing (set_task s i t)" "list_all pristine (uploadedData (set_task s i t))"
    using assms(1) by (simp_all add: waiting_def set_task_def)
  ultimately show ?thesis by (simp add: waiting_def)
qed

lemma waiting_startAnalysis_call:
  assumes "waiting s" and "distinct data" and "list_all (\<lambda>r. r < length (uploadedData s)) data"
  shows "waiting (startAnalysis_call s data)"
  using assms
  by (simp add: waiting_def startAnalysis_call_def workers_alive_def batches_well_formed_def)

lemma waiting_step:
  assumes w: "waiting s" and e: "\<not> starts_run e"
  shows "waiting (step s e)"
proof (cases e)
  case ClickAnalyzeAll
  have "waiting (startAnalysis_call s [0 ..< length (uploadedData s)])"
    by (rule waiting_startAnalysis_call[OF w]) (simp_all add: list_all_iff)
  with w ClickAnalyzeAll show ?thesis by (simp add: analyzeAll_def)
next
  case (ClickAnalyzeSelected selectedRows)
  have "waiting (startAnalysis_call s
      (filter (\<lambda>i. (let r = uploadedData s ! i in if row_id r \<noteq> 0 then row_id r else i) \<in> selectedRows)
         [0 ..< length (uploadedData s)]))"
    by (rule waiting_startAnalysis_call[OF w]) (simp_all add: list_all_iff)
  with w ClickAnalyzeSelected show ?thesis by (simp add: analyzeSelected_def)
next
  case ClickPause
  with w show ?thesis by (simp add: pauseAnalysis_def waiting_def)
next
  case ClickResume
  with w show ?thesis by (simp add: resumeAnalysis_def waiting_def)
next
  case ClickStop
  with w show ?thesis by (simp add: stopAnalysis_def waiting_def)
next
  case (ServerAnswered i serverAvailable)
  with e have f: "\<not> serverAvailable" by simp
  show ?thesis
  proof (cases "task_at s i")
    case (StartAwaitServer data)
    have "waiting (set_task s i Finished)" by (rule waiting_set_task[OF w]) simp_all
    with ServerAnswered f StartAwaitServer show ?thesis by (simp add: startAnalysis_resume_def)
  qed (use w ServerAnswered in simp_all)
next
  case (TimerFired i)
  from w have "\<not> alive (task_at s i)" by (simp add: waiting_def not_alive_task_at)
  with w TimerFired show ?thesis by (cases "task_at s i") simp_all
next
  case (FetchSettled i outcome)
  from w have "\<not> alive (task_at s i)" by (simp add: waiting_def not_alive_task_at)
  with w FetchSettled show ?thesis by (cases "task_at s i") simp_all
next
  case (WorkersDone i)
  show ?thesis
  proof (cases "task_at s i")
    case (StartAwaitWorkers ws)
    from w have "waiting (completeAnalysis s)"
      by (simp add: waiting_def completeAnalysis_def workers_alive_def batches_well_formed_def)
    then have "waiting (set_task (completeAnalysis s) i Finished)"
      by (rule waiting_set_task) simp_all
    with w WorkersDone StartAwaitWorkers show ?thesis by simp
  qed (use w WorkersDone in simp_all)
qed

lemma waiting_new:
  assumes "list_all pristine data"
  shows "waiting (new_AnalysisEngine data)"
  using assms
  by (simp add: waiting_def new_AnalysisEngine_def workers_alive_def batches_well_formed_def)

text \<open>The start of the run.\<close>

lemma running_started:
  assumes w: "waiting s" and t: "task_at s i = StartAwaitServer data"
  shows "running (startAnalysis_resume s i data True)"
proof -
  from t have i: "i < length (tasks s)" and ti: "tasks s ! i = StartAwaitServer data"
    by (simp_all add: task_at_def split: if_splits)
  from w have alive0: "workers_alive s = 0" and prist: "list_all pristine (uploadedData s)"
    and wf: "batches_well_formed s"
    by (simp_all add: waiting_def)
  from i ti have "StartAwaitServer data \<in> set (tasks s)" using nth_mem[OF i] by simp
  with wf have dist: "distinct data" and range: "\<forall>r \<in> set data. r < length (uploadedData s)"
    unfolding batches_well_formed_def list_all_iff by fastforce+
  from fetching_le_alive[of s] alive0 have f0: "fetching s = []" by simp
  define s1 where "s1 = s\<lparr> isProcessing := True, isPaused := False, isStopped := False,
                     currentIndex := 0, processedRows := 0, successfulRows := 0,
                     errorRows := 0, totalRows := length data, processingQueue := data,
                     activeRowIds := {} \<rparr>"
  define s2 where "s2 = fst (launch (maxConcurrentRequests s1) s1 0 [])"
  define ws where "ws = snd (launch (maxConcurrentRequests s1) s1 0 [])"
  have s1: "uploadedData s1 = uploadedData s" "processingQueue s1 = data" "tasks s1 = tasks s"
    "maxConcurrentRequests s1 = maxConcurrentRequests s"
    by (simp_all add: s1_def)
  have f1: "fetching s1 = []" using f0 by (simp add: fetching_def s1)
  have a1: "workers_alive s1 = 0" using alive0 by (simp add: workers_alive_def s1)
  have "single_run s1"
  proof (rule single_runI)
    fix r assume "r \<in> set (processingQueue s1)"
    with range prist show "r < length (uploadedData s1) \<and> pristine (uploadedData s1 ! r)"
      by (simp add: s1 list_all_length)
  next
    fix r assume "r \<in> set (fetching s1)"
    then show "r < length (uploadedData s1) \<and> in_flight_row (uploadedData s1 ! r)"
      by (simp add: f1)
  next
    show "distinct (processingQueue s1 @ fetching s1)" using dist by (simp add: s1 f1)
  next
    fix r assume "r < length (uploadedData s1)" "status (uploadedData s1 ! r) = Processing"
    with prist show "r \<in> set (fetching s1)" by (simp add: s1 list_all_length pristine_def)
  next
    fix r assume "r < length (uploadedData s1)"
    with prist show "claimed_job_invariant (uploadedData s1 ! r)"
      by (simp add: s1 list_all_length pristine_def claimed_job_invariant_def)
  qed
  then have inv2: "single_run s2" unfolding s2_def by (rule launch_single_run)
  have lim2: "maxConcurrentRequests s2 = maxConcurrentRequests s"
    unfolding s2_def by (simp add: launch_limit s1)
  have "workers_alive s2 \<le> workers_alive s1 + (maxConcurrentRequests s1 - 0)"
    unfolding s2_def by (rule launch_workers_alive)
  then have a2: "workers_alive s2 \<le> maxConcurrentRequests s2" by (simp add: a1 lim2 s1)
  have "i < length (tasks s1)" using i by (simp add: s1)
  then have "task_at s2 i = task_at s1 i" unfolding s2_def by (rule launch_task_at)
  moreover have "task_at s1 i = task_at s i" by (simp add: task_at_def s1)
  ultimately have t2: "task_at s2 i = StartAwaitServer data" using t by simp
  have res: "startAnalysis_resume s i data True = set_task s2 i (StartAwaitWorkers ws)"
    by (simp add: startAnalysis_resume_def case_prod_beta s1_def[symmetric] s2_def ws_def)
  have "single_run (set_task s2 i (StartAwaitWorkers ws))"
    using inv2 t2 by (simp add: single_run_set_task)
  moreover have "workers_alive (set_task s2 i (StartAwaitWorkers ws)) \<le> workers_alive s2"
    by (rule workers_alive_set_task) simp
  moreover have "maxConcurrentRequests (set_task s2 i (StartAwaitWorkers ws)) = maxConcurrentRequests s2"
    by (simp add: set_task_def)
  ultimately show ?thesis using a2 by (simp add: running_def res)
qed

lemma waiting_start:
  assumes "waiting s"
  shows "waiting (step s (ServerAnswered i True)) \<or> running (step s (ServerAnswered i True))"
proof (cases "task_at s i")
  case (StartAwaitServer data)
  with running_started[OF assms this] show ?thesis by simp
qed (use assms in simp_all)

text \<open>During the run.\<close>

lemma running_resumed:
  assumes "running s" and "alive (task_at s i)" and "single_run s'"
      and "\<exists>t. tasks s' = (tasks s)[i := t]"
      and "maxConcurrentRequests s' = maxConcurrentRequests s"
  shows "running s'"
proof -
  from assms(4) obtain t where "tasks s' = (tasks s)[i := t]" by auto
  from workers_alive_resumed[OF this assms(2)] assms(1,3,5) show ?thesis
    by (simp add: running_def)
qed

lemma running_unchanged:
  assumes "running s" and "processingQueue s' = processingQueue s"
      and "uploadedData s' = uploadedData s" and "tasks s' = tasks s"
      and "maxConcurrentRequests s' = maxConcurrentRequests s"
  shows "running s'"
proof -
  have "single_run s' = single_run s"
    by (rule single_run_cong) (simp_all add: assms fetching_def)
  with assms show ?thesis by (simp add: running_def workers_alive_def)
qed

lemma running_set_task:
  assumes "running s" and "fetching_row (task_at s i) = []" and "fetching_row t = []" and "\<not> alive t"
  shows "running (set_task s i t)"
proof -
  have "single_run (set_task s i t)" using assms by (simp add: running_def single_run_set_task)
  moreover have "workers_alive (set_task s i t) \<le> workers_alive s"
    using assms(4) by (rule workers_alive_set_task)
  ultimately show ?thesis using assms(1) by (simp add: running_def set_task_def)
qed

lemma running_startAnalysis_call:
  assumes "running s"
  shows "running (startAnalysis_call s data)"
proof (cases "isProcessing s")
  case True
  with assms show ?thesis by (simp add: startAnalysis_call_def)
next
  case False
  have "single_run (s\<lparr> tasks := tasks s @ [StartAwaitServer data] \<rparr>) = single_run s"
    by (rule single_run_cong) (simp_all add: fetching_def)
  with assms False show ?thesis
    by (simp add: startAnalysis_call_def running_def workers_alive_def)
qed

lemma running_step:
  assumes run: "running s" and e: "\<not> starts_run e" and lab: "labelled_event e"
  shows "running (step s e)"
proof (cases e)
  case ClickAnalyzeAll
  with run show ?thesis by (simp add: analyzeAll_def running_startAnalysis_call)
next
  case (ClickAnalyzeSelected selectedRows)
  with run show ?thesis by (simp add: analyzeSelected_def running_startAnalysis_call)
next
  case ClickPause
  have "running (pauseAnalysis s)"
    by (rule running_unchanged[OF run]) (simp_all add: pauseAnalysis_def)
  with ClickPause show ?thesis by simp
next
  case ClickResume
  have "running (resumeAnalysis s)"
    by (rule running_unchanged[OF run]) (simp_all add: resumeAnalysis_def)
  with ClickResume show ?thesis by simp
next
  case ClickStop
  from run have "single_run (stopAnalysis s)" by (simp add: running_def single_run_stopAnalysis)
  moreover have "workers_alive (stopAnalysis s) = workers_alive s"
    "maxConcurrentRequests (stopAnalysis s) = maxConcurrentRequests s"
    by (simp_all add: stopAnalysis_def workers_alive_def)
  ultimately show ?thesis using run ClickStop by (simp add: running_def)
next
  case (ServerAnswered i serverAvailable)
  with e have f: "\<not> serverAvailable" by simp
  show ?thesis
  proof (cases "task_at s i")
    case (StartAwaitServer data)
    have "running (set_task s i Finished)"
      by (rule running_set_task[OF run]) (simp_all add: StartAwaitServer)
    with ServerAnswered f StartAwaitServer show ?thesis by (simp add: startAnalysis_resume_def)
  qed (use run ServerAnswered in simp_all)
next
  case (TimerFired i)
  from run have inv: "single_run s" by (simp add: running_def)
  show ?thesis
  proof (cases "task_at s i")
    case AwaitPause
    then have i: "i < length (tasks s)" and ti: "fetching_row (tasks s ! i) = []"
      by (simp_all add: task_at_def split: if_splits)
    have "running (worker_pause_loop s i)"
      by (rule running_resumed[OF run, of i])
         (simp_all add: AwaitPause single_run_worker_steps[OF inv i ti] worker_steps_tasks
            worker_steps_limit)
    with TimerFired AwaitPause show ?thesis by simp
  next
    case AwaitRow
    then have i: "i < length (tasks s)" and ti: "fetching_row (tasks s ! i) = []"
      by (simp_all add: task_at_def split: if_splits)
    have "running (worker_after_row s i)"
      by (rule running_resumed[OF run, of i])
         (simp_all add: AwaitRow single_run_worker_steps[OF inv i ti] worker_steps_tasks
            worker_steps_limit)
    with TimerFired AwaitRow show ?thesis by simp
  next
    case AwaitPace
    then have i: "i < length (tasks s)" and ti: "fetching_row (tasks s ! i) = []"
      by (simp_all add: task_at_def split: if_splits)
    have "running (worker_loop_head s i)"
      by (rule running_resumed[OF run, of i])
         (simp_all add: AwaitPace single_run_worker_steps[OF inv i ti] worker_steps_tasks
            worker_steps_limit)
    with TimerFired AwaitPace show ?thesis by simp
  qed (use run TimerFired in simp_all)
next
  case (FetchSettled i outcome)
  from run have inv: "single_run s" by (simp add: running_def)
  show ?thesis
  proof (cases "task_at s i")
    case (AwaitFetch r rowId)
    have "running (set_task (processRow_resume s r rowId outcome) i AwaitRow)"
    proof (rule running_resumed[OF run, of i])
      show "alive (task_at s i)" by (simp add: AwaitFetch)
      show "single_run (set_task (processRow_resume s r rowId outcome) i AwaitRow)"
        using inv AwaitFetch lab[unfolded FetchSettled] by (rule single_run_fetch_settled)
      show "\<exists>t. tasks (set_task (processRow_resume s r rowId outcome) i AwaitRow) = (tasks s)[i := t]"
        by (intro exI[of _ AwaitRow]) (simp add: set_task_def processRow_resume_frame)
      show "maxConcurrentRequests (set_task (processRow_resume s r rowId outcome) i AwaitRow)
          = maxConcurrentRequests s"
        by (simp add: set_task_def processRow_resume_frame)
    qed
    with FetchSettled AwaitFetch show ?thesis by simp
  qed (use run FetchSettled in simp_all)
next
  case (WorkersDone i)
  show ?thesis
  proof (cases "task_at s i")
    case (StartAwaitWorkers ws)
    have "running (completeAnalysis s)"
      by (rule running_unchanged[OF run]) (simp_all add: completeAnalysis_def)
    then have "running (set_task (completeAnalysis s) i Finished)"
      by (rule running_set_task)
         (use StartAwaitWorkers in \<open>simp_all add: task_at_def completeAnalysis_def split: if_splits\<close>)
    with run WorkersDone StartAwaitWorkers show ?thesis by simp
  qed (use run WorkersDone in simp_all)
qed

lemma running_run:
  assumes "running s" and "list_all (\<lambda>e. \<not> starts_run e) evs" and "list_all labelled_event evs"
  shows "running (run s evs)"
  using assms
proof (induction evs arbitrary: s)
  case Nil
  then show ?case by (simp add: run_Nil)
next
  case (Cons e evs)
  from Cons.prems have "running (step s e)" by (simp add: running_step)
  with Cons.prems have "running (run (step s e) evs)" by (intro Cons.IH) simp_all
  then show ?case by (simp add: run_Cons)
qed

lemma single_start_run:
  assumes "waiting s" and "single_start evs"
  shows "waiting (run s evs) \<or> running (run s evs)"
  using assms
proof (induction evs arbitrary: s)
  case Nil
  then show ?case by (simp add: run_Nil)
next
  case (Cons e evs)
  show ?case
  proof (cases "starts_run e")
    case False
    with Cons.prems have "waiting (step s e)" by (simp add: waiting_step)
    moreover from Cons.prems False have "single_start evs" by (simp add: single_start_def)
    ultimately have "waiting (run (step s e) evs) \<or> running (run (step s e) evs)"
      by (rule Cons.IH)
    then show ?thesis by (simp add: run_Cons)
  next
    case True
    then obtain i where e: "e = ServerAnswered i True" by (cases e) simp_all
    from Cons.prems True have none: "list_all (\<lambda>e. \<not> starts_run e) evs"
      and lab: "list_all labelled_event evs"
      by (simp_all add: single_start_def list_all_iff filter_empty_conv)
    from waiting_start[OF Cons.prems(1), of i]
    show ?thesis
    proof
      assume "waiting (step s (ServerAnswered i True))"
      moreover from none lab have "single_start evs"
        by (simp add: single_start_def list_all_iff filter_empty_conv[THEN iffD2])
      ultimately have "waiting (run (step s e) evs) \<or> running (run (step s e) evs)"
        unfolding e by (rule Cons.IH)
      then show ?thesis by (simp add: run_Cons)
    next
      assume "running (step s (ServerAnswered i True))"
      then have "running (run (step s e) evs)" unfolding e using none lab by (rule running_run)
      then show ?thesis by (simp add: run_Cons)
    qed
  qed
qed

lemma step_limit: "maxConcurrentRequests (step s e) = maxConcurrentRequests s"
proof (cases e)
  case (ServerAnswered i serverAvailable)
  then show ?thesis
    by (cases "task_at s i")
       (simp_all add: startAnalysis_resume_def set_task_def case_prod_beta launch_limit Let_def)
next
  case (TimerFired i)
  then show ?thesis by (cases "task_at s i") (simp_all add: worker_steps_limit)
next
  case (FetchSettled i outcome)
  then show ?thesis
    by (cases "task_at s i") (simp_all add: set_task_def processRow_resume_frame)
next
  case (WorkersDone i)
  then show ?thesis
    by (cases "task_at s i") (simp_all add: set_task_def completeAnalysis_def)
qed (simp_all add: analyzeAll_def analyzeSelected_def startAnalysis_call_def pauseAnalysis_def
      resumeAnalysis_def stopAnalysis_def)

lemma run_limit: "maxConcurrentRequests (run s evs) = maxConcurrentRequests s"
  by (induction evs arbitrary: s) (simp_all add: run_Nil run_Cons step_limit)

lemma waiting_jobs:
  assumes "waiting s"
  shows "list_all claimed_job_invariant (uploadedData s)" and "count_status Processing s = 0"
  using assms
  by (auto simp: waiting_def list_all_iff pristine_def claimed_job_invariant_def count_status_def
      filter_empty_conv)

lemma running_jobs:
  assumes "running s"
  shows "list_all claimed_job_invariant (uploadedData s)"
    and "count_status Processing s \<le> maxConcurrentRequests s"
proof -
  from assms have inv: "single_run s" and a: "workers_alive s \<le> maxConcurrentRequests s"
    by (simp_all add: running_def)
  from inv show "list_all claimed_job_invariant (uploadedData s)" by (simp add: single_run_def)
  from single_run_processing_bound[OF inv] a
  show "count_status Processing s \<le> maxConcurrentRequests s" by simp
qed

lemma single_start_job_invariant:
  assumes "list_all pristine data" and "single_start evs"
  shows "list_all claimed_job_invariant (uploadedData (run (new_AnalysisEngine data) evs))"
  using single_start_run[OF waiting_new[OF assms(1)] assms(2)] waiting_jobs(1) running_jobs(1)
  by blast

text \<open>
  Within a single run the bound on the concurrency holds. From a fresh engine on pristine
  rows, after any sequence of events with a single start, at most three jobs are
  \<open>Processing\<close>.
\<close>

theorem single_run_concurrency_bound:
  assumes "list_all pristine data" and "single_start evs"
  shows "count_status Processing (run (new_AnalysisEngine data) evs) \<le> 3"
proof -
  have "maxConcurrentRequests (run (new_AnalysisEngine data) evs) = 3"
    by (simp add: run_limit new_AnalysisEngine_def)
  with single_start_run[OF waiting_new[OF assms(1)] assms(2)]
    waiting_jobs(2)[of "run (new_AnalysisEngine data) evs"]
    running_jobs(2)[of "run (new_AnalysisEngine data) evs"]
  show ?thesis by auto
qed

text \<open>
  Claim C7, as the code has it, in two parts. First, from any state in which every job
  with status \<open>Completed\<close> has its three classification fields set and every job with
  status \<open>Error\<close> has its error message set, every sequence of events leads to such a
  state again, provided the successful responses carry the three labels: runs, pauses,
  stops and restarts included. Second, from a fresh engine on pristine rows, after every
  sequence of events with a single start every job satisfies the invariant in both
  directions: the classification is full if and only if the status is \<open>Completed\<close>,
  the error message is set if and only if the status is \<open>Error\<close>. The converse
  directions do not survive a second analysis of a job: no code clears a classification
  or an error message.
\<close>

theorem job_invariant_one_way_and_in_a_first_run:
  "(list_all job_consistent (uploadedData s) \<and> list_all labelled_event evs
      \<longrightarrow> list_all job_consistent (uploadedData (run s evs)))
   \<and> (list_all pristine data \<and> single_start evs'
      \<longrightarrow> list_all claimed_job_invariant (uploadedData (run (new_AnalysisEngine data) evs')))"
  using job_consistent_run[of s evs] single_start_job_invariant[of data evs'] by blast

lemma six_rows_pristine: "list_all pristine six_rows"
  by code_simp

lemma first_run_single_start: "single_start first_run_events"
  by code_simp

theorem job_invariant_one_way_and_in_a_first_run_witness:
  "list_all job_consistent (uploadedData (new_AnalysisEngine one_row))
   \<and> list_all labelled_event (analyse_again_after_error @ [FetchSettled 3 (Inr result_ynn)])
   \<and> list_all job_consistent
        (uploadedData (run (new_AnalysisEngine one_row)
           (analyse_again_after_error @ [FetchSettled 3 (Inr result_ynn)])))
   \<and> status (uploadedData (run (new_AnalysisEngine one_row)
           (analyse_again_after_error @ [FetchSettled 3 (Inr result_ynn)])) ! 0) = Completed
   \<and> list_all pristine six_rows
   \<and> single_start first_run_events
   \<and> list_all claimed_job_invariant
        (uploadedData (run (new_AnalysisEngine six_rows) first_run_events))
   \<and> map status (uploadedData (run (new_AnalysisEngine six_rows) first_run_events))
       = [Completed, Error, Processing, Processing, Pending, Pending]"
proof -
  have "status (uploadedData (run (new_AnalysisEngine one_row)
           (analyse_again_after_error @ [FetchSettled 3 (Inr result_ynn)])) ! 0) = Completed"
    by code_simp
  moreover have "map status (uploadedData (run (new_AnalysisEngine six_rows) first_run_events))
       = [Completed, Error, Processing, Processing, Pending, Pending]"
    by code_simp
  ultimately show ?thesis
    using job_invariant_one_way_and_in_a_first_run
      [of "new_AnalysisEngine one_row" "analyse_again_after_error @ [FetchSettled 3 (Inr result_ynn)]"
          six_rows first_run_events]
      one_row_consistent analyse_again_labelled six_rows_pristine first_run_single_start
    by simp
qed

end
